theory Spec2Isabelle
  imports Complex_Main "HOL-Library.Word" "HOL-Library.Multiset"
begin

section \<open>The annotation manager of mbgl (src/mbgl/map/annotation.cpp)\<close>

text \<open>
  The manager keeps two tables: \<open>annotations\<close>, from annotation IDs to annotations, and
  \<open>annotationTiles\<close>, from tile IDs to a pair of the IDs of the annotations that
  contribute to the tile and the tile's content.  The embedding follows the source
  function by function.  Conventions:
  \<^item> \<open>double\<close> is idealised as \<open>real\<close>: \<open>std::sin\<close> and \<open>std::log\<close> are \<open>sin\<close> and
    \<open>ln\<close>, \<open>M_PI\<close> is \<open>pi\<close>, and no rounding happens;
  \<^item> \<open>uint32_t\<close> is \<open>32 word\<close>, \<open>uint8_t\<close> and \<open>int8_t\<close> are \<open>8 word\<close> (read with
    \<open>uint\<close>/\<open>unat\<close> or with \<open>sint\<close>);
  \<^item> the mutex is not modelled: every operation is one atomic step on the state;
  \<^item> an operation returns \<open>None\<close> where the source fails an \<open>assert\<close> or reads a
    vector out of range.
\<close>

subsection \<open>Data\<close>

datatype AnnotationType = Point | Shape

record LatLng =
  latitude :: real
  longitude :: real

text \<open>
  Modelled from the spec: \<open>LatLngBounds\<close> (mbgl/util/geo.hpp is not among the sources) is
  a box given by its south-west and north-east corners; the empty box has
  \<open>sw = (90, 180)\<close> and \<open>ne = (-90, -180)\<close>, and \<open>extend\<close> (here \<open>extend_bounds\<close>) grows the box to the
  min/max envelope that contains one more point.
\<close>

record LatLngBounds =
  sw :: LatLng
  ne :: LatLng

definition LatLngBounds_default :: LatLngBounds where
  "LatLngBounds_default =
     \<lparr>sw = \<lparr>latitude = 90, longitude = 180\<rparr>, ne = \<lparr>latitude = -90, longitude = -180\<rparr>\<rparr>"

definition extend_bounds :: "LatLng \<Rightarrow> LatLngBounds \<Rightarrow> LatLngBounds" where
  "extend_bounds point b =
     \<lparr>sw = \<lparr>latitude = min (latitude (sw b)) (latitude point),
             longitude = min (longitude (sw b)) (longitude point)\<rparr>,
      ne = \<lparr>latitude = max (latitude (ne b)) (latitude point),
             longitude = max (longitude (ne b)) (longitude point)\<rparr>\<rparr>"

text \<open>
  Modelled from the spec: \<open>Tile::ID\<close> (mbgl/map/tile.hpp is not among the sources) is a
  triple of integers \<open>(zoom, x, y)\<close>.  A tile ID holds the values of the arguments it
  was constructed from: the value of the \<open>int8_t\<close> zoom and the values of the two
  \<open>uint32_t\<close> coordinates in \<open>addPointAnnotations\<close>, the truncated products in
  \<open>getAnnotationsInBounds\<close>.
\<close>

record TileID =
  tile_z :: int
  tile_x :: int
  tile_y :: int

text \<open>
  Modelled from the spec: a \<open>LiveTileFeature\<close> (mbgl/map/live_tile.hpp is not among the
  sources) is an immutable geometry in tile-local coordinates with a property mapping.
  The manager only builds point features with the one coordinate and the one property
  \<open>sprite\<close>, which the model keeps.  The features are shared objects
  (\<open>std::make_shared\<close>) that are compared by identity; \<open>feature_id\<close> is that
  identity, drawn from the allocation counter \<open>nextFeature\<close> of the state.  A
  \<open>std::weak_ptr\<close> to a feature is the feature's identity.
\<close>

record LiveTileFeature =
  feature_id :: nat
  feature_coordinate :: "int \<times> int"
  feature_sprite :: string

type_synonym AnnotationSegment = "LatLng list"
type_synonym AnnotationSegments = "AnnotationSegment list"
type_synonym AnnotationIDs = "32 word list"

record Annotation =
  type :: AnnotationType
  geometry :: AnnotationSegments
  tileFeatures :: "TileID \<rightharpoonup> nat list"
  bounds :: LatLngBounds

text \<open>
  A tile entry: the contributing annotation IDs and the tile content.  Every
  \<open>LiveTile\<close> of the store holds exactly one layer, the point layer stored under
  \<open>layerID\<close> when the entry is created (lines 135-142); the model keeps the feature
  list of that layer.
\<close>

type_synonym TileEntry = "AnnotationIDs \<times> LiveTileFeature list"

text \<open>
  \<open>annotationTiles\<close> is a \<open>std::map\<close>, traversed in key order by \<open>removeAnnotations\<close>
  and \<open>getAnnotationsInBounds\<close>: an association list with distinct keys, kept in key
  order.  \<open>annotations\<close> is only searched, extended and erased: a map.
\<close>

text \<open>The member \<open>nextID_\<close> of the source is the field \<open>nextID_field\<close>.\<close>

record AnnotationManager =
  defaultPointAnnotationSymbol :: string
  nextID_field :: "32 word"
  annotations :: "32 word \<rightharpoonup> Annotation"
  annotationTiles :: "(TileID \<times> TileEntry) list"
  nextFeature :: nat

subsection \<open>Containers\<close>

text \<open>\<open>std::map::emplace\<close> inserts only when the key is absent.\<close>

definition map_emplace :: "'k \<Rightarrow> 'v \<Rightarrow> ('k \<rightharpoonup> 'v) \<Rightarrow> ('k \<rightharpoonup> 'v)" where
  "map_emplace k v m = (case m k of None \<Rightarrow> m(k \<mapsto> v) | Some _ \<Rightarrow> m)"

text \<open>
  Modelled from the spec: the order \<open>Tile::ID::operator<\<close> (mbgl/map/tile.hpp, not among
  the sources) that the \<open>std::map\<close> of tiles is kept in.  The spec gives a tile ID as
  \<open>(zoom, x, y)\<close>; the model orders the triples lexicographically.  Only the order
  in which the tiles are traversed depends on the choice.
\<close>

definition tile_less :: "TileID \<Rightarrow> TileID \<Rightarrow> bool" where
  "tile_less a b \<longleftrightarrow>
     tile_z a < tile_z b \<or>
     (tile_z a = tile_z b \<and> (tile_x a < tile_x b \<or> (tile_x a = tile_x b \<and> tile_y a < tile_y b)))"

fun tiles_emplace :: "TileID \<Rightarrow> TileEntry \<Rightarrow> (TileID \<times> TileEntry) list \<Rightarrow> (TileID \<times> TileEntry) list" where
  "tiles_emplace k v [] = [(k, v)]"
| "tiles_emplace k v ((k', v') # rest) =
     (if k = k' then (k', v') # rest
      else if tile_less k k' then (k, v) # (k', v') # rest
      else (k', v') # tiles_emplace k v rest)"

fun tiles_modify :: "TileID \<Rightarrow> (TileEntry \<Rightarrow> TileEntry) \<Rightarrow> (TileID \<times> TileEntry) list \<Rightarrow> (TileID \<times> TileEntry) list" where
  "tiles_modify k f [] = []"
| "tiles_modify k f ((k', v') # rest) =
     (if k = k' then (k', f v') # rest else (k', v') # tiles_modify k f rest)"

text \<open>
  Modelled from the spec: \<open>LiveTileLayer::removeFeature\<close> (mbgl/map/live_tile.cpp is not
  among the sources) removes a feature by identity and does nothing when the feature
  is absent, which is also the case of a weak reference that has expired.
\<close>

fun removeFeature :: "nat \<Rightarrow> LiveTileFeature list \<Rightarrow> LiveTileFeature list" where
  "removeFeature w [] = []"
| "removeFeature w (f # fs) = (if feature_id f = w then fs else f # removeFeature w fs)"

text \<open>
  Modelled from the spec: \<open>util::erase_if\<close> (mbgl/util/std.hpp is not among the sources)
  strikes the elements that satisfy the predicate from the container.
\<close>

definition erase_if :: "('a \<Rightarrow> bool) \<Rightarrow> 'a list \<Rightarrow> 'a list" where
  "erase_if pred xs = filter (\<lambda>x. \<not> pred x) xs"

subsection \<open>Annotation\<close>

text \<open>\<open>Annotation::getPoint\<close> (lines 55-59); the two assertions are the \<open>None\<close> cases.\<close>

definition getPoint_geometry :: "AnnotationSegments \<Rightarrow> LatLng option" where
  "getPoint_geometry g =
     (case g of [] \<Rightarrow> None | s # _ \<Rightarrow> (case s of [] \<Rightarrow> None | p # _ \<Rightarrow> Some p))"

definition getPoint :: "Annotation \<Rightarrow> LatLng option" where
  "getPoint a = getPoint_geometry (geometry a)"

definition getBounds :: "Annotation \<Rightarrow> LatLngBounds" where
  "getBounds a = bounds a"

text \<open>The constructor (lines 37-53).\<close>

definition Annotation_ctor :: "AnnotationType \<Rightarrow> AnnotationSegments \<Rightarrow> Annotation option" where
  "Annotation_ctor ty geom =
     (case ty of
        Point \<Rightarrow>
          (case getPoint_geometry geom of
             None \<Rightarrow> None
           | Some p \<Rightarrow>
               Some \<lparr>type = ty, geometry = geom, tileFeatures = Map.empty,
                     bounds = \<lparr>sw = p, ne = p\<rparr>\<rparr>)
      | Shape \<Rightarrow>
          Some \<lparr>type = ty, geometry = geom, tileFeatures = Map.empty,
                bounds = fold extend_bounds (concat geom) LatLngBounds_default\<rparr>)"

subsection \<open>The manager\<close>

text \<open>
  Modelled from the spec: the members' initial values (mbgl/map/annotation.hpp is not
  among the sources): the counter starts at 0, the tables are empty.
\<close>

definition AnnotationManager_ctor :: AnnotationManager where
  "AnnotationManager_ctor =
     \<lparr>defaultPointAnnotationSymbol = [], nextID_field = 0, annotations = Map.empty,
      annotationTiles = [], nextFeature = 0\<rparr>"

definition setDefaultPointAnnotationSymbol :: "string \<Rightarrow> AnnotationManager \<Rightarrow> AnnotationManager" where
  "setDefaultPointAnnotationSymbol symbol m = m\<lparr>defaultPointAnnotationSymbol := symbol\<rparr>"

definition nextID :: "AnnotationManager \<Rightarrow> 32 word \<times> AnnotationManager" where
  "nextID m = (nextID_field m, m\<lparr>nextID_field := nextID_field m + 1\<rparr>)"

text \<open>
  \<open>projectPoint\<close> (lines 77-82), on the reals.  At the latitudes \<open>90\<close> and \<open>-90\<close>
  the sine is \<open>1\<close> or \<open>-1\<close> and the source divides by zero or takes the logarithm of
  zero, with an infinite result; in HOL both are 0.  The spec excludes these inputs.
\<close>

definition projectPoint :: "LatLng \<Rightarrow> real \<times> real" where
  "projectPoint point =
     (let sine = sin (latitude point * pi / 180);
          x = longitude point / 360 + 0.5;
          y = 0.5 - 0.25 * ln ((1 + sine) / (1 - sine)) / pi
      in (x, y))"

text \<open>
  The conversion of a \<open>double\<close> to an integer type drops the fraction (rounds towards
  zero).  The source converts to \<open>uint32_t\<close> (lines 107-108), where the model then
  reduces modulo \<open>2 ^ 32\<close>; C++ leaves the conversion undefined when the truncated
  value does not fit.
\<close>

definition double_to_int :: "real \<Rightarrow> int" where
  "double_to_int r = (if 0 \<le> r then \<lfloor>r\<rfloor> else \<lceil>r\<rceil>)"

definition double_to_uint32 :: "real \<Rightarrow> 32 word" where
  "double_to_uint32 r = word_of_int (double_to_int r)"

text \<open>
  The body of the loop over the zoom levels (lines 111-151), without the halving of
  its last three lines.  \<open>z\<close> is the \<open>int8_t\<close> loop variable; \<open>tileOf\<close> is the tile
  ID constructed from it and the two \<open>uint32_t\<close> coordinates (line 111), and
  \<open>makeFeature\<close> the feature of lines 114-123, whose coordinate is
  \<open>extent * (p.x * z2 - x)\<close> converted to an integer.  The annotation that line 146
  updates is the one stored under \<open>annotationID\<close>, which is there since line 96.
\<close>

definition extent :: real where
  "extent = 4096"

definition tileOf :: "8 word \<Rightarrow> 32 word \<Rightarrow> 32 word \<Rightarrow> TileID" where
  "tileOf z x y = \<lparr>tile_z = sint z, tile_x = uint x, tile_y = uint y\<rparr>"

definition makeFeature :: "AnnotationManager \<Rightarrow> real \<times> real \<Rightarrow> string \<Rightarrow> 32 word \<Rightarrow> 32 word \<Rightarrow> 32 word \<Rightarrow>
    LiveTileFeature" where
  "makeFeature m p symbol z2 x y =
     \<lparr>feature_id = nextFeature m,
      feature_coordinate =
        (double_to_int (extent * (fst p * real (unat z2) - real (unat x))),
         double_to_int (extent * (snd p * real (unat z2) - real (unat y)))),
      feature_sprite = (if length symbol \<noteq> 0 then symbol else defaultPointAnnotationSymbol m)\<rparr>"

definition addFeature :: "32 word \<Rightarrow> real \<times> real \<Rightarrow> string \<Rightarrow> 8 word \<Rightarrow> 32 word \<Rightarrow> 32 word \<Rightarrow> 32 word \<Rightarrow>
    TileID list \<times> AnnotationManager \<Rightarrow> TileID list \<times> AnnotationManager" where
  "addFeature annotationID p symbol z z2 x y st =
     (let affectedTiles = fst st; m = snd st;
          tileID = tileOf z x y;
          feature = makeFeature m p symbol z2 x y;
          tiles' = (case map_of (annotationTiles m) tileID of
                      Some _ \<Rightarrow>
                        tiles_modify tileID
                          (\<lambda>e. (fst e @ [annotationID], snd e @ [feature])) (annotationTiles m)
                    | None \<Rightarrow>
                        tiles_emplace tileID ([annotationID], [feature]) (annotationTiles m));
          annotations' = (annotations m)
            (annotationID :=
               map_option (\<lambda>a. a\<lparr>tileFeatures := map_emplace tileID [feature_id feature] (tileFeatures a)\<rparr>)
                 (annotations m annotationID))
      in (affectedTiles @ [tileID],
          m\<lparr>annotations := annotations', annotationTiles := tiles',
            nextFeature := nextFeature m + 1\<rparr>))"

lemma sint_dec_int8: "0 \<le> sint (z :: 8 word) \<Longrightarrow> sint (z - 1) = sint z - 1"
proof -
  assume a: "0 \<le> sint z"
  have b: "sint z < 128" using sint_lt [of z] by simp
  have "sint (z - 1) = signed_take_bit 7 (sint z - 1)"
    by (simp add: sint_word_ariths)
  also have "\<dots> = sint z - 1"
    using a b by (simp add: signed_take_bit_int_eq_self)
  finally show ?thesis .
qed

text \<open>The loop \<open>for (int8_t z = maxZoom; z >= 0; z--)\<close> of lines 110-152.\<close>

function fanOut :: "32 word \<Rightarrow> real \<times> real \<Rightarrow> string \<Rightarrow> 8 word \<Rightarrow> 32 word \<Rightarrow> 32 word \<Rightarrow> 32 word \<Rightarrow>
    TileID list \<times> AnnotationManager \<Rightarrow> TileID list \<times> AnnotationManager" where
  "fanOut annotationID p symbol z z2 x y st =
     (if 0 \<le> sint z
      then fanOut annotationID p symbol (z - 1) (z2 div 2) (x div 2) (y div 2)
             (addFeature annotationID p symbol z z2 x y st)
      else st)"
  by pat_completeness auto
termination
  by (relation "measure (\<lambda>(annotationID, p, symbol, z, z2, x, y, st). nat (sint z + 1))")
     (auto simp: sint_dec_int8)

declare fanOut.simps [simp del]

text \<open>
  One round of the loop over the points (lines 94-154).  \<open>symbol\<close> is \<open>symbols[i]\<close>,
  \<open>None\<close> when \<open>i\<close> is out of range; the source reads it inside the loop over the
  zoom levels only, which runs at least once exactly when \<open>maxZoom\<close> is not negative
  as an \<open>int8_t\<close>.  \<open>1 << maxZoom\<close> is the shift on 32 bits, which is 0 from 32 on;
  C++ leaves the shift undefined from there on.  \<open>annotations.emplace\<close> leaves an
  annotation that is already stored under the ID as it is.
\<close>

definition addPoint :: "LatLng \<Rightarrow> string option \<Rightarrow> 8 word \<Rightarrow>
    TileID list \<times> AnnotationIDs \<times> AnnotationManager \<Rightarrow> (TileID list \<times> AnnotationIDs \<times> AnnotationManager) option" where
  "addPoint point symbol maxZoom st =
     (let affectedTiles = fst st; annotationIDs = fst (snd st); m = snd (snd st);
          annotationID = fst (nextID m); m1 = snd (nextID m)
      in case Annotation_ctor Point [[point]] of
           None \<Rightarrow> None
         | Some a \<Rightarrow>
             (let m2 = m1\<lparr>annotations := map_emplace annotationID a (annotations m1)\<rparr>;
                  z2 = (push_bit (unat maxZoom) 1 :: 32 word);
                  p = projectPoint point;
                  x = double_to_uint32 (fst p * real (unat z2));
                  y = double_to_uint32 (snd p * real (unat z2))
              in if 0 \<le> sint maxZoom \<and> symbol = None then None
                 else (let r = fanOut annotationID p (case symbol of None \<Rightarrow> [] | Some s \<Rightarrow> s)
                                 maxZoom z2 x y (affectedTiles, m2)
                       in Some (fst r, annotationIDs @ [annotationID], snd r))))"

fun addPoints :: "LatLng list \<Rightarrow> string list \<Rightarrow> 8 word \<Rightarrow>
    TileID list \<times> AnnotationIDs \<times> AnnotationManager \<Rightarrow> (TileID list \<times> AnnotationIDs \<times> AnnotationManager) option" where
  "addPoints [] symbols maxZoom st = Some st"
| "addPoints (point # points) symbols maxZoom st =
     (case addPoint point (case symbols of [] \<Rightarrow> None | s # _ \<Rightarrow> Some s) maxZoom st of
        None \<Rightarrow> None
      | Some st' \<Rightarrow> addPoints points (tl symbols) maxZoom st')"

text \<open>
  \<open>addPointAnnotations\<close> (lines 84-158).  \<open>AnnotationIDs annotationIDs(points.size())\<close>
  constructs a vector of \<open>points.size()\<close> elements of value 0, to which the loop
  appends.  The result is the returned pair and the new state.
\<close>

definition addPointAnnotations :: "LatLng list \<Rightarrow> string list \<Rightarrow> 8 word \<Rightarrow> AnnotationManager \<Rightarrow>
    ((TileID list \<times> AnnotationIDs) \<times> AnnotationManager) option" where
  "addPointAnnotations points symbols maxZoom m =
     (case addPoints points symbols maxZoom ([], replicate (length points) 0, m) of
        None \<Rightarrow> None
      | Some st \<Rightarrow> Some ((fst st, fst (snd st)), snd (snd st)))"

subsection \<open>Removal\<close>

text \<open>
  The loop over the tiles inside \<open>removeAnnotations\<close> (lines 169-183), for one live
  annotation: the new tile table and the tiles pushed to \<open>affectedTiles\<close>, in the order
  of the traversal.  \<open>features[0]\<close> of an empty vector is the \<open>None\<close> case.
\<close>

fun removeFromTiles :: "32 word \<Rightarrow> Annotation \<Rightarrow> (TileID \<times> TileEntry) list \<Rightarrow>
    ((TileID \<times> TileEntry) list \<times> TileID list) option" where
  "removeFromTiles annotationID annotation [] = Some ([], [])"
| "removeFromTiles annotationID annotation (tile_it # rest) =
     (let tileAnnotations = erase_if (\<lambda>annotationID'. annotationID' = annotationID) (fst (snd tile_it))
      in case tileFeatures annotation (fst tile_it) of
           None \<Rightarrow>
             (case removeFromTiles annotationID annotation rest of
                None \<Rightarrow> None
              | Some r \<Rightarrow> Some ((fst tile_it, (tileAnnotations, snd (snd tile_it))) # fst r, snd r))
         | Some features \<Rightarrow>
             (case features of
                [] \<Rightarrow> None
              | f # _ \<Rightarrow>
                  (case removeFromTiles annotationID annotation rest of
                     None \<Rightarrow> None
                   | Some r \<Rightarrow>
                       Some ((fst tile_it, (tileAnnotations, removeFeature f (snd (snd tile_it)))) # fst r,
                             fst tile_it # snd r))))"

text \<open>\<open>removeAnnotations\<close> (lines 160-189): the returned vector and the new state.\<close>

fun removeAnnotations :: "AnnotationIDs \<Rightarrow> AnnotationManager \<Rightarrow> (TileID list \<times> AnnotationManager) option" where
  "removeAnnotations [] m = Some ([], m)"
| "removeAnnotations (annotationID # ids) m =
     (case annotations m annotationID of
        None \<Rightarrow> removeAnnotations ids m
      | Some annotation \<Rightarrow>
          (case removeFromTiles annotationID annotation (annotationTiles m) of
             None \<Rightarrow> None
           | Some r \<Rightarrow>
               (case removeAnnotations ids
                       (m\<lparr>annotations := (annotations m)(annotationID := None),
                          annotationTiles := fst r\<rparr>) of
                  None \<Rightarrow> None
                | Some r' \<Rightarrow> Some (snd r @ fst r', snd r'))))"

subsection \<open>Queries\<close>

text \<open>The test of lines 222-225 on the cached bounds of an annotation.\<close>

definition boundsWithin :: "LatLngBounds \<Rightarrow> LatLngBounds \<Rightarrow> bool" where
  "boundsWithin annoBounds queryBounds \<longleftrightarrow>
     latitude (sw annoBounds) \<ge> latitude (sw queryBounds) \<and>
     latitude (ne annoBounds) \<le> latitude (ne queryBounds) \<and>
     longitude (sw annoBounds) \<ge> longitude (sw queryBounds) \<and>
     longitude (ne annoBounds) \<le> longitude (ne queryBounds)"

text \<open>The two tests of lines 209 and 210 on a tile ID and the two corner tiles.\<close>

definition tileInRange :: "TileID \<Rightarrow> TileID \<Rightarrow> TileID \<Rightarrow> bool" where
  "tileInRange nwTile seTile tid \<longleftrightarrow>
     tile_x tid \<ge> tile_x nwTile \<and> tile_x tid \<le> tile_x seTile \<and>
     tile_y tid \<ge> tile_y nwTile \<and> tile_y tid \<le> tile_y seTile"

definition tileInterior :: "TileID \<Rightarrow> TileID \<Rightarrow> TileID \<Rightarrow> bool" where
  "tileInterior nwTile seTile tid \<longleftrightarrow>
     tile_x tid > tile_x nwTile \<and> tile_x tid < tile_x seTile \<and>
     tile_y tid > tile_y nwTile \<and> tile_y tid < tile_y seTile"

text \<open>The predicate of \<open>std::copy_if\<close> (lines 218-229).\<close>

definition boundsAccepted :: "(32 word \<rightharpoonup> Annotation) \<Rightarrow> LatLngBounds \<Rightarrow> 32 word \<Rightarrow> bool" where
  "boundsAccepted annos queryBounds annotationID =
     (case annos annotationID of
        Some a \<Rightarrow> boundsWithin (getBounds a) queryBounds
      | None \<Rightarrow> False)"

text \<open>
  The loop over the tiles of \<open>getAnnotationsInBounds\<close> (lines 206-233).  \<open>id.z == z\<close>
  compares the tile's zoom with the \<open>uint8_t\<close> \<open>z\<close> as integers.
\<close>

fun matchTiles :: "8 word \<Rightarrow> TileID \<Rightarrow> TileID \<Rightarrow> LatLngBounds \<Rightarrow> (32 word \<rightharpoonup> Annotation) \<Rightarrow>
    (TileID \<times> TileEntry) list \<Rightarrow> 32 word list" where
  "matchTiles z nwTile seTile queryBounds annos [] = []"
| "matchTiles z nwTile seTile queryBounds annos (tile # rest) =
     (let tid = fst tile in
      (if tile_z tid = uint z then
         (if tileInRange nwTile seTile tid then
            (if tileInterior nwTile seTile tid then fst (snd tile)
             else filter (boundsAccepted annos queryBounds) (fst (snd tile)))
          else [])
       else [])
      @ matchTiles z nwTile seTile queryBounds annos rest)"

text \<open>
  \<open>getAnnotationsInBounds\<close> (lines 191-236).  The zoom of the two corner tiles is
  never read.
\<close>

definition nwTile_of :: "LatLngBounds \<Rightarrow> 8 word \<Rightarrow> TileID" where
  "nwTile_of queryBounds z =
     (let z2 = (push_bit (unat z) 1 :: 32 word);
          swPoint = projectPoint (sw queryBounds);
          nePoint = projectPoint (ne queryBounds)
      in \<lparr>tile_z = uint z,
          tile_x = double_to_int (fst swPoint * real (unat z2)),
          tile_y = double_to_int (snd nePoint * real (unat z2))\<rparr>)"

definition seTile_of :: "LatLngBounds \<Rightarrow> 8 word \<Rightarrow> TileID" where
  "seTile_of queryBounds z =
     (let z2 = (push_bit (unat z) 1 :: 32 word);
          swPoint = projectPoint (sw queryBounds);
          nePoint = projectPoint (ne queryBounds)
      in \<lparr>tile_z = uint z,
          tile_x = double_to_int (fst nePoint * real (unat z2)),
          tile_y = double_to_int (snd swPoint * real (unat z2))\<rparr>)"

definition getAnnotationsInBounds :: "LatLngBounds \<Rightarrow> 8 word \<Rightarrow> AnnotationManager \<Rightarrow> 32 word list" where
  "getAnnotationsInBounds queryBounds maxZoom m =
     matchTiles maxZoom (nwTile_of queryBounds maxZoom) (seTile_of queryBounds maxZoom)
       queryBounds (annotations m) (annotationTiles m)"

text \<open>\<open>getTile\<close> (lines 252-260).\<close>

definition getTile :: "TileID \<Rightarrow> AnnotationManager \<Rightarrow> LiveTileFeature list option" where
  "getTile tid m = map_option snd (map_of (annotationTiles m) tid)"

subsection \<open>Notions for the statements and the proofs\<close>

text \<open>
  The tiles of one point: the tile \<open>(x, y)\<close> at zoom \<open>z\<close> followed by its ancestors
  down to zoom 0.  \<open>topTile\<close> is the tile coordinate at the maximum zoom of a
  projected coordinate (lines 103, 107, 108).
\<close>

definition pyramid :: "8 word \<Rightarrow> 32 word \<Rightarrow> 32 word \<Rightarrow> TileID list" where
  "pyramid z x y =
     map (\<lambda>k. \<lparr>tile_z = sint z - int k, tile_x = uint x div 2 ^ k, tile_y = uint y div 2 ^ k\<rparr>)
       [0..<nat (sint z + 1)]"

definition topTile :: "real \<Rightarrow> 8 word \<Rightarrow> 32 word" where
  "topTile c maxZoom = double_to_uint32 (c * real (unat (push_bit (unat maxZoom) 1 :: 32 word)))"

text \<open>The entry of a tile after one more feature of an annotation has been added.\<close>

definition entryWith :: "32 word \<Rightarrow> LiveTileFeature \<Rightarrow> TileEntry option \<Rightarrow> TileEntry" where
  "entryWith i f e = (case e of None \<Rightarrow> ([i], [f]) | Some e' \<Rightarrow> (fst e' @ [i], snd e' @ [f]))"

text \<open>
  The invariant of the two tables: the keys of the tile table are distinct; every ID
  in a contributing list is the key of a live annotation; no live annotation holds an
  empty vector of weak references; and a live annotation holds weak references for a
  tile exactly when its ID is in the contributing list of the tile's entry.
\<close>

definition consistent :: "AnnotationManager \<Rightarrow> bool" where
  "consistent m \<longleftrightarrow>
     distinct (map fst (annotationTiles m)) \<and>
     (\<forall>t e j. map_of (annotationTiles m) t = Some e \<longrightarrow> j \<in> set (fst e) \<longrightarrow> annotations m j \<noteq> None) \<and>
     (\<forall>j a t. annotations m j = Some a \<longrightarrow> tileFeatures a t \<noteq> Some []) \<and>
     (\<forall>j a t. annotations m j = Some a \<longrightarrow>
        (tileFeatures a t \<noteq> None \<longleftrightarrow>
         (\<exists>e. map_of (annotationTiles m) t = Some e \<and> j \<in> set (fst e))))"

text \<open>The states of a manager: those reached from the constructor by the operations.\<close>

inductive reachable :: "AnnotationManager \<Rightarrow> bool" where
  reachable_ctor: "reachable AnnotationManager_ctor"
| reachable_setDefault: "reachable m \<Longrightarrow> reachable (setDefaultPointAnnotationSymbol symbol m)"
| reachable_add:
    "reachable m \<Longrightarrow> addPointAnnotations points symbols maxZoom m = Some (r, m') \<Longrightarrow> reachable m'"
| reachable_remove:
    "reachable m \<Longrightarrow> removeAnnotations ids m = Some (affectedTiles, m') \<Longrightarrow> reachable m'"

text \<open>
  The manager after the first step of a round of \<open>addPointAnnotations\<close> (lines
  94-99): the counter has advanced and the point annotation is in the table.
\<close>

definition emplaced :: "LatLng \<Rightarrow> AnnotationManager \<Rightarrow> AnnotationManager" where
  "emplaced point m =
     m\<lparr>nextID_field := nextID_field m + 1,
       annotations := map_emplace (nextID_field m)
         \<lparr>type = Point, geometry = [[point]], tileFeatures = Map.empty,
          bounds = \<lparr>sw = point, ne = point\<rparr>\<rparr> (annotations m)\<rparr>"

text \<open>
  The entry of a tile after \<open>removeAnnotations\<close> has visited it for the live
  annotation \<open>a\<close> with key \<open>i\<close>.
\<close>

definition dropFeature :: "Annotation \<Rightarrow> TileID \<Rightarrow> LiveTileFeature list \<Rightarrow> LiveTileFeature list" where
  "dropFeature a t layer =
     (case tileFeatures a t of
        None \<Rightarrow> layer
      | Some features \<Rightarrow> (case features of [] \<Rightarrow> layer | f # _ \<Rightarrow> removeFeature f layer))"

definition struck :: "32 word \<Rightarrow> Annotation \<Rightarrow> TileID \<times> TileEntry \<Rightarrow> TileID \<times> TileEntry" where
  "struck i a tile =
     (fst tile, (erase_if (\<lambda>j. j = i) (fst (snd tile)), dropFeature a (fst tile) (snd (snd tile))))"

text \<open>Every ID in a contributing list of a tile entry is the key of a live annotation.\<close>

definition liveIDs :: "AnnotationManager \<Rightarrow> bool" where
  "liveIDs m \<longleftrightarrow> (\<forall>tile\<in>set (annotationTiles m). \<forall>i\<in>set (fst (snd tile)). annotations m i \<noteq> None)"

text \<open>A manager evolves by any sequence of the operations that change its state.\<close>

inductive evolves :: "AnnotationManager \<Rightarrow> AnnotationManager \<Rightarrow> bool" where
  evolves_refl: "evolves m m"
| evolves_setDefault: "evolves m m' \<Longrightarrow> evolves m (setDefaultPointAnnotationSymbol symbol m')"
| evolves_add:
    "evolves m m' \<Longrightarrow> addPointAnnotations points symbols maxZoom m' = Some (r, m'') \<Longrightarrow> evolves m m''"
| evolves_remove:
    "evolves m m' \<Longrightarrow> removeAnnotations ids m' = Some (affectedTiles, m'') \<Longrightarrow> evolves m m''"

subsection \<open>The scenario of the spec\<close>

text \<open>
  The point on the equator and the prime meridian, the state of a manager with default
  symbol \<open>marker\<close> after that point has been added with maximum zoom 2, the state after
  the annotation has been removed again, and the query box of one degree around the
  point.
\<close>

definition origin :: LatLng where
  "origin = \<lparr>latitude = 0, longitude = 0\<rparr>"

definition scenario_added :: AnnotationManager where
  "scenario_added =
     \<lparr>defaultPointAnnotationSymbol = ''marker'', nextID_field = 1,
      annotations =
        [0 \<mapsto> \<lparr>type = Point, geometry = [[origin]],
                tileFeatures =
                  [\<lparr>tile_z = 2, tile_x = 2, tile_y = 2\<rparr> \<mapsto> [0],
                   \<lparr>tile_z = 1, tile_x = 1, tile_y = 1\<rparr> \<mapsto> [1],
                   \<lparr>tile_z = 0, tile_x = 0, tile_y = 0\<rparr> \<mapsto> [2]],
                bounds = \<lparr>sw = origin, ne = origin\<rparr>\<rparr>],
      annotationTiles =
        [(\<lparr>tile_z = 0, tile_x = 0, tile_y = 0\<rparr>, [0],
          [\<lparr>feature_id = 2, feature_coordinate = (2048, 2048), feature_sprite = ''marker''\<rparr>]),
         (\<lparr>tile_z = 1, tile_x = 1, tile_y = 1\<rparr>, [0],
          [\<lparr>feature_id = 1, feature_coordinate = (0, 0), feature_sprite = ''marker''\<rparr>]),
         (\<lparr>tile_z = 2, tile_x = 2, tile_y = 2\<rparr>, [0],
          [\<lparr>feature_id = 0, feature_coordinate = (0, 0), feature_sprite = ''marker''\<rparr>])],
      nextFeature = 3\<rparr>"

definition scenario_removed :: AnnotationManager where
  "scenario_removed =
     \<lparr>defaultPointAnnotationSymbol = ''marker'', nextID_field = 1,
      annotations = Map.empty,
      annotationTiles =
        [(\<lparr>tile_z = 0, tile_x = 0, tile_y = 0\<rparr>, [], []),
         (\<lparr>tile_z = 1, tile_x = 1, tile_y = 1\<rparr>, [], []),
         (\<lparr>tile_z = 2, tile_x = 2, tile_y = 2\<rparr>, [], [])],
      nextFeature = 3\<rparr>"

definition scenario_box :: LatLngBounds where
  "scenario_box = \<lparr>sw = \<lparr>latitude = -1, longitude = -1\<rparr>, ne = \<lparr>latitude = 1, longitude = 1\<rparr>\<rparr>"

subsection \<open>Further states of a manager, and histories\<close>

text \<open>
  The state of a new manager after two points at \<open>(0, 0)\<close> have been added in one
  call with maximum zoom 0: both annotations contribute to the one tile of zoom 0.
\<close>

definition pair_added :: AnnotationManager where
  "pair_added =
     \<lparr>defaultPointAnnotationSymbol = [], nextID_field = 2,
      annotations =
        [0 \<mapsto> \<lparr>type = Point, geometry = [[origin]],
                tileFeatures = [\<lparr>tile_z = 0, tile_x = 0, tile_y = 0\<rparr> \<mapsto> [0]],
                bounds = \<lparr>sw = origin, ne = origin\<rparr>\<rparr>,
         1 \<mapsto> \<lparr>type = Point, geometry = [[origin]],
                tileFeatures = [\<lparr>tile_z = 0, tile_x = 0, tile_y = 0\<rparr> \<mapsto> [1]],
                bounds = \<lparr>sw = origin, ne = origin\<rparr>\<rparr>],
      annotationTiles =
        [(\<lparr>tile_z = 0, tile_x = 0, tile_y = 0\<rparr>, [0, 1],
          [\<lparr>feature_id = 0, feature_coordinate = (2048, 2048), feature_sprite = []\<rparr>,
           \<lparr>feature_id = 1, feature_coordinate = (2048, 2048), feature_sprite = []\<rparr>])],
      nextFeature = 2\<rparr>"

text \<open>
  The IDs that a manager has allocated so far, in the order of their allocation, along
  the operations from the constructor on.  The IDs that a call of
  \<open>addPointAnnotations\<close> allocates are those that its loop appends to the returned
  vector, after the \<open>points.size()\<close> elements that the vector starts with.
\<close>

inductive allocated :: "32 word list \<Rightarrow> AnnotationManager \<Rightarrow> bool" where
  allocated_ctor: "allocated [] AnnotationManager_ctor"
| allocated_setDefault:
    "allocated h m \<Longrightarrow> allocated h (setDefaultPointAnnotationSymbol symbol m)"
| allocated_add:
    "allocated h m \<Longrightarrow> addPointAnnotations points symbols maxZoom m = Some ((tiles, ids), m') \<Longrightarrow>
     allocated (h @ drop (length points) ids) m'"
| allocated_remove:
    "allocated h m \<Longrightarrow> removeAnnotations ids m = Some (tiles, m') \<Longrightarrow> allocated h m'"

text \<open>
  The state of a manager after \<open>n\<close> rounds of adding one point at \<open>(0, 0)\<close> with maximum
  zoom 0 and removing it again, and the state in the middle of the next round.
\<close>

definition cycled :: "nat \<Rightarrow> AnnotationManager" where
  "cycled n =
     \<lparr>defaultPointAnnotationSymbol = [], nextID_field = of_nat n, annotations = Map.empty,
      annotationTiles = [(\<lparr>tile_z = 0, tile_x = 0, tile_y = 0\<rparr>, [], [])],
      nextFeature = n\<rparr>"

definition cycling :: "nat \<Rightarrow> AnnotationManager" where
  "cycling n =
     \<lparr>defaultPointAnnotationSymbol = [], nextID_field = of_nat (Suc n),
      annotations =
        [of_nat n \<mapsto> \<lparr>type = Point, geometry = [[origin]],
                tileFeatures = [\<lparr>tile_z = 0, tile_x = 0, tile_y = 0\<rparr> \<mapsto> [n]],
                bounds = \<lparr>sw = origin, ne = origin\<rparr>\<rparr>],
      annotationTiles =
        [(\<lparr>tile_z = 0, tile_x = 0, tile_y = 0\<rparr>, [of_nat n],
          [\<lparr>feature_id = n, feature_coordinate = (2048, 2048), feature_sprite = []\<rparr>])],
      nextFeature = Suc n\<rparr>"

text \<open>
  The states of a manager that has been populated only by \<open>addPointAnnotations\<close> (the
  default symbol may have been set), with the number of IDs allocated so far.
\<close>

inductive populated :: "nat \<Rightarrow> AnnotationManager \<Rightarrow> bool" where
  populated_ctor: "populated 0 AnnotationManager_ctor"
| populated_setDefault:
    "populated n m \<Longrightarrow> populated n (setDefaultPointAnnotationSymbol symbol m)"
| populated_add:
    "populated n m \<Longrightarrow> addPointAnnotations points symbols maxZoom m = Some (r, m') \<Longrightarrow>
     populated (n + length points) m'"

text \<open>
  The IDs in the contributing lists of the tiles of one zoom level, and the property
  that each of the first \<open>N\<close> IDs occurs at most once per zoom level and no other ID
  occurs at all.
\<close>

definition zoomIDs :: "int \<Rightarrow> (TileID \<times> TileEntry) list \<Rightarrow> 32 word list" where
  "zoomIDs c tiles = concat (map (\<lambda>tile. fst (snd tile)) (filter (\<lambda>tile. tile_z (fst tile) = c) tiles))"

definition packed :: "nat \<Rightarrow> (TileID \<times> TileEntry) list \<Rightarrow> bool" where
  "packed N tiles \<longleftrightarrow>
     (\<forall>c j. count (mset (zoomIDs c tiles)) j \<le> (if unat j < N then 1 else 0))"

text \<open>
  The state of a manager after \<open>n\<close> calls (\<open>1 \<le> n \<le> 2 ^ 32\<close>) that each add one point at
  \<open>(0, 0)\<close> with maximum zoom 0, the state after one more such call when \<open>n\<close> is
  \<open>2 ^ 32\<close>, and the query box that is the point \<open>(0, 0)\<close>.
\<close>

definition origin_box :: LatLngBounds where
  "origin_box = \<lparr>sw = origin, ne = origin\<rparr>"

definition originFeature :: "nat \<Rightarrow> LiveTileFeature" where
  "originFeature k = \<lparr>feature_id = k, feature_coordinate = (2048, 2048), feature_sprite = []\<rparr>"

definition originAnnotation :: "nat \<Rightarrow> Annotation" where
  "originAnnotation k =
     \<lparr>type = Point, geometry = [[origin]],
      tileFeatures = [\<lparr>tile_z = 0, tile_x = 0, tile_y = 0\<rparr> \<mapsto> [k]],
      bounds = \<lparr>sw = origin, ne = origin\<rparr>\<rparr>"

definition crowded :: "nat \<Rightarrow> AnnotationManager" where
  "crowded n =
     \<lparr>defaultPointAnnotationSymbol = [], nextID_field = of_nat n,
      annotations = (\<lambda>i. if unat i < n then Some (originAnnotation (unat i)) else None),
      annotationTiles =
        [(\<lparr>tile_z = 0, tile_x = 0, tile_y = 0\<rparr>, map of_nat [0..<n], map originFeature [0..<n])],
      nextFeature = n\<rparr>"

definition overfull :: AnnotationManager where
  "overfull =
     \<lparr>defaultPointAnnotationSymbol = [], nextID_field = 1,
      annotations = (\<lambda>i. Some (originAnnotation (unat i))),
      annotationTiles =
        [(\<lparr>tile_z = 0, tile_x = 0, tile_y = 0\<rparr>, map of_nat [0..<4294967296] @ [0],
          map originFeature [0..<4294967296] @ [originFeature 4294967296])],
      nextFeature = 4294967297\<rparr>"

section \<open>Evaluation of the scenario\<close>

lemma projectPoint_origin: "projectPoint origin = (1/2, 1/2)"
  by (simp add: projectPoint_def origin_def)

lemma scenario_add:
  "addPointAnnotations [origin] [[]] 2
     (setDefaultPointAnnotationSymbol ''marker'' AnnotationManager_ctor) =
   Some (([\<lparr>tile_z = 2, tile_x = 2, tile_y = 2\<rparr>, \<lparr>tile_z = 1, tile_x = 1, tile_y = 1\<rparr>,
           \<lparr>tile_z = 0, tile_x = 0, tile_y = 0\<rparr>], [0, 0]), scenario_added)"
  apply (simp add: addPointAnnotations_def addPoint_def nextID_def Annotation_ctor_def getPoint_geometry_def
      setDefaultPointAnnotationSymbol_def AnnotationManager_ctor_def projectPoint_origin
      double_to_uint32_def double_to_int_def map_emplace_def)
  apply (simp add: fanOut.simps addFeature_def tileOf_def makeFeature_def extent_def double_to_int_def
       map_emplace_def tile_less_def Let_def
       scenario_added_def)
  apply (simp add: numeral_2_eq_2 numeral_3_eq_3)
  done

lemma sin_degree_bounds: "0 < sin (pi / 180)" "sin (pi / 180) \<le> 1 / 4"
proof -
  have p: "0 < pi / 180" "pi / 180 < pi" using pi_gt_zero by simp_all
  show "0 < sin (pi / 180)" using sin_gt_zero [OF p] .
  have "sin (pi / 180) \<le> pi / 180" by (rule sin_x_le_x) (use p in simp)
  also have "\<dots> \<le> 1 / 4" using pi_less_4 by simp
  finally show "sin (pi / 180) \<le> 1 / 4" .
qed

lemma mercator_degree_bounds:
  "0 < ln ((1 + sin (pi / 180)) / (1 - sin (pi / 180))) / pi"
  "ln ((1 + sin (pi / 180)) / (1 - sin (pi / 180))) / pi < 1"
proof -
  let ?s = "sin (pi / 180)"
  let ?q = "(1 + ?s) / (1 - ?s)"
  have s: "0 < ?s" "?s \<le> 1 / 4" by (rule sin_degree_bounds)+
  have q1: "1 < ?q" using s by (simp add: field_simps)
  have q3: "?q \<le> 2" using s by (simp add: field_simps)
  have "0 < ln ?q" using q1 by simp
  then show "0 < ln ?q / pi" using pi_gt_zero by simp
  have "ln ?q \<le> ?q - 1" using q1 by (intro ln_le_minus_one) simp
  also have "\<dots> < 2" using q3 by simp
  also have "\<dots> \<le> pi" using pi_ge_two by simp
  finally show "ln ?q / pi < 1" using pi_gt_zero by simp
qed

lemma double_to_int_floor: "0 \<le> r \<Longrightarrow> double_to_int r = \<lfloor>r\<rfloor>"
  by (simp add: double_to_int_def)

lemma scenario_nwTile: "nwTile_of scenario_box 2 = \<lparr>tile_z = 2, tile_x = 1, tile_y = 1\<rparr>"
proof -
  let ?s = "sin (pi / 180)"
  let ?L = "ln ((1 + ?s) / (1 - ?s)) / pi"
  have x: "double_to_int ((- 1 / 360 + 1 / 2) * 4) = 1"
    by (simp add: double_to_int_def)
  have e: "(1 / 2 - 1 / 4 * ln ((1 + ?s) / (1 - ?s)) / pi) * 4 = 2 - ?L"
    by (simp add: algebra_simps)
  have "\<lfloor>2 - ?L\<rfloor> = 1" using mercator_degree_bounds by linarith
  moreover have "0 \<le> 2 - ?L" using mercator_degree_bounds by linarith
  ultimately have y: "double_to_int ((1 / 2 - 1 / 4 * ln ((1 + ?s) / (1 - ?s)) / pi) * 4) = 1"
    unfolding e by (simp add: double_to_int_floor)
  show ?thesis
    using x y by (simp add: nwTile_of_def scenario_box_def projectPoint_def Let_def)
qed

lemma scenario_seTile: "seTile_of scenario_box 2 = \<lparr>tile_z = 2, tile_x = 2, tile_y = 2\<rparr>"
proof -
  let ?s = "sin (pi / 180)"
  let ?L = "ln ((1 + ?s) / (1 - ?s)) / pi"
  have s: "0 < ?s" "?s \<le> 1 / 4" by (rule sin_degree_bounds)+
  have x: "double_to_int ((1 / 360 + 1 / 2) * 4) = 2"
    by (simp add: double_to_int_def)
  have inv: "(1 - ?s) / (1 + ?s) = inverse ((1 + ?s) / (1 - ?s))" by simp
  have ln_inv: "ln ((1 - ?s) / (1 + ?s)) = - ln ((1 + ?s) / (1 - ?s))"
    unfolding inv by (rule ln_inverse)
  have e: "(1 / 2 - 1 / 4 * ln ((1 - ?s) / (1 + ?s)) / pi) * 4 = 2 + ?L"
    unfolding ln_inv by (simp add: algebra_simps)
  have "\<lfloor>2 + ?L\<rfloor> = 2" using mercator_degree_bounds by linarith
  moreover have "0 \<le> 2 + ?L" using mercator_degree_bounds by linarith
  ultimately have y: "double_to_int ((1 / 2 - 1 / 4 * ln ((1 - ?s) / (1 + ?s)) / pi) * 4) = 2"
    unfolding e by (simp add: double_to_int_floor)
  show ?thesis
    using x y by (simp add: seTile_of_def scenario_box_def projectPoint_def Let_def)
qed

lemma scenario_query: "getAnnotationsInBounds scenario_box 2 scenario_added = [0]"
  by (simp add: getAnnotationsInBounds_def scenario_nwTile scenario_seTile)
     (simp add: scenario_added_def scenario_box_def boundsWithin_def getBounds_def origin_def
        tileInRange_def tileInterior_def boundsAccepted_def)


lemma scenario_remove:
  "removeAnnotations [0] scenario_added =
   Some ([\<lparr>tile_z = 0, tile_x = 0, tile_y = 0\<rparr>, \<lparr>tile_z = 1, tile_x = 1, tile_y = 1\<rparr>,
          \<lparr>tile_z = 2, tile_x = 2, tile_y = 2\<rparr>], scenario_removed)"
  by (simp add: scenario_added_def scenario_removed_def erase_if_def)

text \<open>
  Claim C1 says that the second component of the pair returned by
  \<open>addPointAnnotations\<close> holds exactly one ID per input point, so that its length is
  the number of points.  In the source the vector is constructed with one element 0
  per point and the new IDs are appended to it: for the one point of the scenario the
  returned vector is \<open>[0, 0]\<close>, of length 2.
\<close>

theorem addPointAnnotations_ids_scenario:
  "map_option (\<lambda>r. snd (fst r))
     (addPointAnnotations [origin] [[]] 2
        (setDefaultPointAnnotationSymbol ''marker'' AnnotationManager_ctor)) = Some [0, 0]"
  by (simp add: scenario_add)

text \<open>
  Claim C2, the scenario of the spec: on a fresh manager with default symbol \<open>marker\<close>
  and maximum zoom 2, adding the point \<open>(0, 0)\<close> with the empty symbol allocates one
  ID, the ID 0 (the counter moves from 0 to 1 and 0 is the only key of the annotation
  table), and reports the tiles \<open>(2,2,2)\<close>, \<open>(1,1,1)\<close>, \<open>(0,0,0)\<close>; the query with the
  box from \<open>(-1,-1)\<close> to \<open>(1,1)\<close> at zoom 2 then returns \<open>[0]\<close>; and removing \<open>[0]\<close>
  returns those three tiles, each once, and leaves the annotation table empty.  (The
  vector of IDs that the call returns is the subject of C1.)
\<close>

theorem scenario_add_query_remove:
  "addPointAnnotations [origin] [[]] 2
     (setDefaultPointAnnotationSymbol ''marker'' AnnotationManager_ctor) =
   Some (([\<lparr>tile_z = 2, tile_x = 2, tile_y = 2\<rparr>, \<lparr>tile_z = 1, tile_x = 1, tile_y = 1\<rparr>,
           \<lparr>tile_z = 0, tile_x = 0, tile_y = 0\<rparr>], [0, 0]), scenario_added) \<and>
   nextID_field AnnotationManager_ctor = 0 \<and>
   nextID_field scenario_added = 1 \<and>
   dom (annotations scenario_added) = {0} \<and>
   getAnnotationsInBounds scenario_box 2 scenario_added = [0] \<and>
   map_option (\<lambda>r. (mset (fst r), annotations (snd r))) (removeAnnotations [0] scenario_added) =
     Some ({#\<lparr>tile_z = 2, tile_x = 2, tile_y = 2\<rparr>, \<lparr>tile_z = 1, tile_x = 1, tile_y = 1\<rparr>,
             \<lparr>tile_z = 0, tile_x = 0, tile_y = 0\<rparr>#}, Map.empty)"
proof -
  have "dom (annotations scenario_added) = {0}"
    by (simp add: scenario_added_def)
  moreover have "nextID_field scenario_added = 1" "nextID_field AnnotationManager_ctor = 0"
    by (simp_all add: scenario_added_def AnnotationManager_ctor_def)
  moreover have
    "map_option (\<lambda>r. (mset (fst r), annotations (snd r))) (removeAnnotations [0] scenario_added) =
     Some ({#\<lparr>tile_z = 2, tile_x = 2, tile_y = 2\<rparr>, \<lparr>tile_z = 1, tile_x = 1, tile_y = 1\<rparr>,
             \<lparr>tile_z = 0, tile_x = 0, tile_y = 0\<rparr>#}, Map.empty)"
    by (subst scenario_remove) (simp add: scenario_removed_def)
  ultimately show ?thesis
    using scenario_add scenario_query by blast
qed

section \<open>The tiles of a point\<close>

lemma addFeature_fst:
  "fst (addFeature annotationID p symbol z z2 x y st) =
   fst st @ [\<lparr>tile_z = sint z, tile_x = uint x, tile_y = uint y\<rparr>]"
  by (simp add: addFeature_def tileOf_def Let_def)

lemma addFeature_nextID:
  "nextID_field (snd (addFeature annotationID p symbol z z2 x y st)) = nextID_field (snd st)"
  by (simp add: addFeature_def Let_def)

lemma addFeature_default:
  "defaultPointAnnotationSymbol (snd (addFeature annotationID p symbol z z2 x y st)) =
   defaultPointAnnotationSymbol (snd st)"
  by (simp add: addFeature_def Let_def)

lemma pyramid_neg: "\<not> 0 \<le> sint z \<Longrightarrow> pyramid z x y = []"
  by (simp add: pyramid_def)

lemma pyramid_step:
  assumes "0 \<le> sint z"
  shows "pyramid z x y =
         \<lparr>tile_z = sint z, tile_x = uint x, tile_y = uint y\<rparr> # pyramid (z - 1) (x div 2) (y div 2)"
proof -
  have n: "nat (sint z + 1) = Suc (nat (sint (z - 1) + 1))"
    using assms by (simp add: sint_dec_int8 nat_add_distrib)
  have d: "uint (w div 2) div 2 ^ k = uint w div 2 ^ Suc k" for k and w :: "32 word"
    by (simp add: uint_div zdiv_zmult2_eq)
  have "[0..<Suc (nat (sint (z - 1) + 1))] = 0 # map Suc [0..<nat (sint (z - 1) + 1)]"
    by (simp add: upt_conv_Cons map_Suc_upt del: upt_Suc)
  then show ?thesis
    unfolding pyramid_def n using assms
    by (simp add: sint_dec_int8 d o_def del: upt_Suc power_Suc)
qed

lemma fanOut_fst:
  "fst (fanOut annotationID p symbol z z2 x y st) = fst st @ pyramid z x y"
proof (induction annotationID p symbol z z2 x y st rule: fanOut.induct)
  case (1 annotationID p symbol z z2 x y st)
  show ?case
  proof (cases "0 \<le> sint z")
    case True
    then show ?thesis
      using "1.IH" by (subst fanOut.simps) (simp add: addFeature_fst pyramid_step [OF True])
  next
    case False
    then show ?thesis
      by (subst fanOut.simps) (simp add: pyramid_neg)
  qed
qed

lemma fanOut_nextID:
  "nextID_field (snd (fanOut annotationID p symbol z z2 x y st)) = nextID_field (snd st)"
proof (induction annotationID p symbol z z2 x y st rule: fanOut.induct)
  case (1 annotationID p symbol z z2 x y st)
  then show ?case
    by (subst fanOut.simps) (simp add: addFeature_nextID)
qed

lemma addPoint_result:
  assumes "addPoint point symbol maxZoom st = Some st'"
  shows "fst st' = fst st @
           pyramid maxZoom
             (double_to_uint32 (fst (projectPoint point) * real (unat (push_bit (unat maxZoom) 1 :: 32 word))))
             (double_to_uint32 (snd (projectPoint point) * real (unat (push_bit (unat maxZoom) 1 :: 32 word))))"
    and "fst (snd st') = fst (snd st) @ [nextID_field (snd (snd st))]"
    and "nextID_field (snd (snd st')) = nextID_field (snd (snd st)) + 1"
  using assms
  by (auto simp: addPoint_def Let_def nextID_def Annotation_ctor_def getPoint_geometry_def
      fanOut_fst fanOut_nextID split: if_splits)


lemma addPoints_result:
  "addPoints points symbols maxZoom st = Some st' \<Longrightarrow>
   fst st' = fst st @
     concat (map (\<lambda>p. pyramid maxZoom (topTile (fst (projectPoint p)) maxZoom)
                           (topTile (snd (projectPoint p)) maxZoom)) points) \<and>
   fst (snd st') = fst (snd st) @
     map (\<lambda>k. nextID_field (snd (snd st)) + of_nat k) [0..<length points] \<and>
   nextID_field (snd (snd st')) = nextID_field (snd (snd st)) + of_nat (length points)"
proof (induction points arbitrary: symbols st)
  case Nil
  then show ?case by simp
next
  case (Cons point points)
  from Cons.prems obtain st1 where
    a: "addPoint point (case symbols of [] \<Rightarrow> None | s # _ \<Rightarrow> Some s) maxZoom st = Some st1" and
    b: "addPoints points (tl symbols) maxZoom st1 = Some st'"
    by (auto split: option.splits)
  note r = addPoint_result [OF a]
  have shift: "map (\<lambda>k. w + (1 + of_nat k)) [0..<n] = map (\<lambda>k. w + of_nat k) [Suc 0..<Suc n]"
    for w :: "32 word" and n
    by (subst map_Suc_upt [symmetric]) (simp add: o_def)
  show ?case
    using Cons.IH [OF b] r
    by (simp add: topTile_def shift upt_conv_Cons add.assoc del: upt_Suc)
qed


lemma addPointAnnotations_result:
  assumes "addPointAnnotations points symbols maxZoom m = Some ((affectedTiles, ids), m')"
  shows "affectedTiles =
           concat (map (\<lambda>p. pyramid maxZoom (topTile (fst (projectPoint p)) maxZoom)
                                 (topTile (snd (projectPoint p)) maxZoom)) points)"
    and "ids = replicate (length points) 0 @ map (\<lambda>k. nextID_field m + of_nat k) [0..<length points]"
    and "nextID_field m' = nextID_field m + of_nat (length points)"
proof -
  from assms obtain st' where
    a: "addPoints points symbols maxZoom ([], replicate (length points) 0, m) = Some st'" and
    b: "affectedTiles = fst st'" "ids = fst (snd st')" "m' = snd (snd st')"
    by (auto simp: addPointAnnotations_def split: option.splits)
  from addPoints_result [OF a] b
  show "affectedTiles =
           concat (map (\<lambda>p. pyramid maxZoom (topTile (fst (projectPoint p)) maxZoom)
                                 (topTile (snd (projectPoint p)) maxZoom)) points)"
    and "ids = replicate (length points) 0 @ map (\<lambda>k. nextID_field m + of_nat k) [0..<length points]"
    and "nextID_field m' = nextID_field m + of_nat (length points)"
    by simp_all
qed

lemma length_pyramid: "length (pyramid z x y) = nat (sint z + 1)"
  by (simp add: pyramid_def)

lemma nth_pyramid:
  "k < nat (sint z + 1) \<Longrightarrow>
   pyramid z x y ! k = \<lparr>tile_z = sint z - int k, tile_x = uint x div 2 ^ k, tile_y = uint y div 2 ^ k\<rparr>"
  by (simp add: pyramid_def)

lemma div_pow2_Suc: "(a::int) div 2 ^ Suc k = a div 2 ^ k div 2"
proof -
  have "a div (2 ^ k * 2) = a div 2 ^ k div 2"
    by (rule zdiv_zmult2_eq) simp
  then show ?thesis by (simp add: mult.commute)
qed

lemma pyramid_chain:
  "length (pyramid z x y) = nat (sint z + 1) \<and>
   (\<forall>k<length (pyramid z x y). tile_z (pyramid z x y ! k) = sint z - int k) \<and>
   (\<forall>k. Suc k < length (pyramid z x y) \<longrightarrow>
      tile_x (pyramid z x y ! Suc k) = tile_x (pyramid z x y ! k) div 2 \<and>
      tile_y (pyramid z x y ! Suc k) = tile_y (pyramid z x y ! k) div 2)"
  by (simp add: length_pyramid nth_pyramid div_pow2_Suc del: power_Suc)

text \<open>
  Claim C4: a call of \<open>addPointAnnotations\<close> reports, for every point, the tiles of
  the zoom levels from the maximum zoom down to 0, in this order (none when the
  maximum zoom is negative as an \<open>int8_t\<close>), and each of them but the first is the
  parent of the one before it: its zoom is one less, and its \<open>x\<close> and \<open>y\<close> are those
  of the one before it divided by 2, rounding down.
\<close>

theorem fanOut_parent_tiles:
  assumes "addPointAnnotations points symbols maxZoom m = Some ((affectedTiles, ids), m')"
  shows "\<exists>chunks. affectedTiles = concat chunks \<and> length chunks = length points \<and>
           (\<forall>c\<in>set chunks.
              length c = nat (sint maxZoom + 1) \<and>
              (\<forall>k<length c. tile_z (c ! k) = sint maxZoom - int k) \<and>
              (\<forall>k. Suc k < length c \<longrightarrow>
                 tile_x (c ! Suc k) = tile_x (c ! k) div 2 \<and>
                 tile_y (c ! Suc k) = tile_y (c ! k) div 2))"
proof -
  let ?chunks = "map (\<lambda>p. pyramid maxZoom (topTile (fst (projectPoint p)) maxZoom)
                                 (topTile (snd (projectPoint p)) maxZoom)) points"
  have "affectedTiles = concat ?chunks"
    by (rule addPointAnnotations_result(1) [OF assms])
  moreover have "length ?chunks = length points" by simp
  moreover have "length c = nat (sint maxZoom + 1) \<and>
              (\<forall>k<length c. tile_z (c ! k) = sint maxZoom - int k) \<and>
              (\<forall>k. Suc k < length c \<longrightarrow>
                 tile_x (c ! Suc k) = tile_x (c ! k) div 2 \<and>
                 tile_y (c ! Suc k) = tile_y (c ! k) div 2)" if "c \<in> set ?chunks" for c
  proof -
    from that obtain x y where "c = pyramid maxZoom x y" by auto
    then show ?thesis using pyramid_chain [of maxZoom x y] by simp
  qed
  ultimately show ?thesis by blast
qed

theorem fanOut_parent_tiles_scenario:
  "\<exists>chunks. [\<lparr>tile_z = 2, tile_x = 2, tile_y = 2\<rparr>, \<lparr>tile_z = 1, tile_x = 1, tile_y = 1\<rparr>,
             \<lparr>tile_z = 0, tile_x = 0, tile_y = 0\<rparr>] = concat chunks \<and> length chunks = 1 \<and>
           (\<forall>c\<in>set chunks.
              length c = 3 \<and>
              (\<forall>k<length c. tile_z (c ! k) = 2 - int k) \<and>
              (\<forall>k. Suc k < length c \<longrightarrow>
                 tile_x (c ! Suc k) = tile_x (c ! k) div 2 \<and>
                 tile_y (c ! Suc k) = tile_y (c ! k) div 2))"
  using fanOut_parent_tiles [OF scenario_add] by simp

section \<open>Queries\<close>

lemma matchTiles_iff:
  "i \<in> set (matchTiles z nwTile seTile queryBounds annos tiles) \<longleftrightarrow>
   (\<exists>tile\<in>set tiles.
      tile_z (fst tile) = uint z \<and> tileInRange nwTile seTile (fst tile) \<and>
      i \<in> set (fst (snd tile)) \<and>
      (tileInterior nwTile seTile (fst tile) \<or>
       (\<exists>a. annos i = Some a \<and> boundsWithin (getBounds a) queryBounds)))"
proof (induction tiles)
  case Nil
  show ?case by simp
next
  case (Cons tile tiles)
  have here: "boundsAccepted annos queryBounds i \<longleftrightarrow>
      (\<exists>a. annos i = Some a \<and> boundsWithin (getBounds a) queryBounds)"
    by (simp add: boundsAccepted_def split: option.splits)
  show ?case
    using Cons.IH by (auto simp: Let_def here)
qed

text \<open>
  Claim C5: an ID is returned by \<open>getAnnotationsInBounds\<close> exactly when it is in the
  contributing list of a tile entry whose zoom is \<open>maxZoom\<close> and whose coordinate
  lies in the rectangle between the two corner tiles of the projected query box, and
  either the tile is strictly inside the rectangle (then nothing else is asked), or
  the ID is the key of a live annotation whose cached bounds lie within the query box.
\<close>

theorem getAnnotationsInBounds_iff:
  "i \<in> set (getAnnotationsInBounds queryBounds maxZoom m) \<longleftrightarrow>
   (\<exists>tile\<in>set (annotationTiles m).
      tile_z (fst tile) = uint maxZoom \<and>
      tileInRange (nwTile_of queryBounds maxZoom) (seTile_of queryBounds maxZoom) (fst tile) \<and>
      i \<in> set (fst (snd tile)) \<and>
      (tileInterior (nwTile_of queryBounds maxZoom) (seTile_of queryBounds maxZoom) (fst tile) \<or>
       (\<exists>a. annotations m i = Some a \<and> boundsWithin (getBounds a) queryBounds)))"
  unfolding getAnnotationsInBounds_def by (rule matchTiles_iff)

theorem getAnnotationsInBounds_iff_scenario:
  "\<exists>tile\<in>set (annotationTiles scenario_added).
      tile_z (fst tile) = 2 \<and>
      tileInRange \<lparr>tile_z = 2, tile_x = 1, tile_y = 1\<rparr> \<lparr>tile_z = 2, tile_x = 2, tile_y = 2\<rparr> (fst tile) \<and>
      0 \<in> set (fst (snd tile)) \<and>
      (tileInterior \<lparr>tile_z = 2, tile_x = 1, tile_y = 1\<rparr> \<lparr>tile_z = 2, tile_x = 2, tile_y = 2\<rparr> (fst tile) \<or>
       (\<exists>a. annotations scenario_added 0 = Some a \<and> boundsWithin (getBounds a) scenario_box))"
  using getAnnotationsInBounds_iff [of 0 scenario_box 2 scenario_added]
  by (simp add: scenario_query scenario_nwTile scenario_seTile)

section \<open>The tile table as an association list\<close>

lemma tiles_modify_keys: "map fst (tiles_modify k f ts) = map fst ts"
  by (induction ts) auto

lemma map_of_tiles_modify:
  "map_of (tiles_modify k f ts) k' =
   (if k' = k then map_option f (map_of ts k) else map_of ts k')"
  by (induction ts) auto

lemma tiles_emplace_keys:
  "set (map fst (tiles_emplace k v ts)) = insert k (set (map fst ts))"
  by (induction k v ts rule: tiles_emplace.induct) (simp_all add: insert_commute del: set_map)

lemma tiles_emplace_distinct:
  "distinct (map fst ts) \<Longrightarrow> k \<notin> set (map fst ts) \<Longrightarrow> distinct (map fst (tiles_emplace k v ts))"
  by (induction k v ts rule: tiles_emplace.induct) (auto simp add: tiles_emplace_keys simp del: set_map)

lemma map_of_tiles_emplace:
  "map_of ts k = None \<Longrightarrow> map_of (tiles_emplace k v ts) k' = (if k' = k then Some v else map_of ts k')"
  by (induction ts) (auto split: if_splits)

lemma map_of_None_keys: "map_of ts k = None \<longleftrightarrow> k \<notin> set (map fst ts)"
  by (simp add: map_of_eq_None_iff)

section \<open>The effect of one feature\<close>

lemma addFeature_tiles:
  "map_of (annotationTiles (snd (addFeature i p s z z2 x y st))) t =
     (if t = tileOf z x y
      then Some (entryWith i (makeFeature (snd st) p s z2 x y)
                   (map_of (annotationTiles (snd st)) (tileOf z x y)))
      else map_of (annotationTiles (snd st)) t)"
  by (simp add: addFeature_def Let_def entryWith_def map_of_tiles_modify map_of_tiles_emplace
       split: option.splits)

lemma addFeature_annotations:
  "annotations (snd (addFeature i p s z z2 x y st)) j =
     (if j = i
      then map_option (\<lambda>a. a\<lparr>tileFeatures :=
               map_emplace (tileOf z x y) [nextFeature (snd st)] (tileFeatures a)\<rparr>) (annotations (snd st) i)
      else annotations (snd st) j)"
  by (simp add: addFeature_def Let_def makeFeature_def)

lemma addFeature_keys:
  "set (map fst (annotationTiles (snd (addFeature i p s z z2 x y st)))) =
   insert (tileOf z x y) (set (map fst (annotationTiles (snd st))))"
proof (cases "map_of (annotationTiles (snd st)) (tileOf z x y)")
  case None
  then show ?thesis
    by (simp add: addFeature_def Let_def tiles_emplace_keys del: set_map)
next
  case (Some e)
  then have "tileOf z x y \<in> set (map fst (annotationTiles (snd st)))"
    using map_of_None_keys [of "annotationTiles (snd st)" "tileOf z x y"] by simp
  with Some show ?thesis
    by (auto simp add: addFeature_def Let_def tiles_modify_keys simp del: set_map)
qed

lemma addFeature_distinct:
  "distinct (map fst (annotationTiles (snd st))) \<Longrightarrow>
   distinct (map fst (annotationTiles (snd (addFeature i p s z z2 x y st))))"
  by (simp add: addFeature_def Let_def tiles_modify_keys tiles_emplace_distinct map_of_None_keys
      split: option.splits del: set_map)

section \<open>The invariant of the tables\<close>

lemma consistent_ctor: "consistent AnnotationManager_ctor"
  by (simp add: consistent_def AnnotationManager_ctor_def)

lemma consistent_setDefault:
  "consistent m \<Longrightarrow> consistent (setDefaultPointAnnotationSymbol symbol m)"
  by (simp add: consistent_def setDefaultPointAnnotationSymbol_def)

lemma set_fst_entryWith:
  "set (fst (entryWith i f e)) = insert i (case e of None \<Rightarrow> {} | Some e' \<Rightarrow> set (fst e'))"
  by (simp add: entryWith_def split: option.splits)

lemma addFeature_live:
  "annotations (snd (addFeature i p s z z2 x y st)) j = None \<longleftrightarrow> annotations (snd st) j = None"
  by (simp add: addFeature_annotations)

lemma addFeature_consistent:
  assumes c: "consistent (snd st)" and l: "annotations (snd st) i \<noteq> None"
  shows "consistent (snd (addFeature i p s z z2 x y st))"
proof -
  let ?m = "snd st" and ?m' = "snd (addFeature i p s z z2 x y st)"
  let ?t = "tileOf z x y"
  from c have d: "distinct (map fst (annotationTiles ?m))"
    and live: "\<And>t e j. map_of (annotationTiles ?m) t = Some e \<Longrightarrow> j \<in> set (fst e) \<Longrightarrow> annotations ?m j \<noteq> None"
    and refs: "\<And>j a t. annotations ?m j = Some a \<Longrightarrow> tileFeatures a t \<noteq> Some []"
    and link: "\<And>j a t. annotations ?m j = Some a \<Longrightarrow>
        (tileFeatures a t \<noteq> None \<longleftrightarrow> (\<exists>e. map_of (annotationTiles ?m) t = Some e \<and> j \<in> set (fst e)))"
    unfolding consistent_def by blast+
  have 1: "distinct (map fst (annotationTiles ?m'))"
    by (rule addFeature_distinct [OF d])
  have "(\<exists>e. map_of (annotationTiles ?m') t = Some e \<and> j \<in> set (fst e)) \<longleftrightarrow>
        (if t = ?t
         then j \<in> set (fst (entryWith i (makeFeature ?m p s z2 x y) (map_of (annotationTiles ?m) ?t)))
         else (\<exists>e. map_of (annotationTiles ?m) t = Some e \<and> j \<in> set (fst e)))" for t j
    by (simp add: addFeature_tiles del: split_paired_Ex)
  then have mem: "(\<exists>e. map_of (annotationTiles ?m') t = Some e \<and> j \<in> set (fst e)) \<longleftrightarrow>
             (t = ?t \<and> j = i) \<or> (\<exists>e. map_of (annotationTiles ?m) t = Some e \<and> j \<in> set (fst e))" for t j
    unfolding set_fst_entryWith by (cases "map_of (annotationTiles ?m) ?t") auto
  have 2: "annotations ?m' j \<noteq> None" if "map_of (annotationTiles ?m') t = Some e" "j \<in> set (fst e)" for t e j
  proof -
    from that have "(t = ?t \<and> j = i) \<or> (\<exists>e. map_of (annotationTiles ?m) t = Some e \<and> j \<in> set (fst e))"
      using mem [of t j] by blast
    then have "annotations ?m j \<noteq> None" using l live by blast
    then show ?thesis using addFeature_live [of i p s z z2 x y st j] by simp
  qed
  have tf: "\<exists>a0. annotations ?m j = Some a0 \<and>
              tileFeatures a = (if j = i then map_emplace ?t [nextFeature ?m] (tileFeatures a0)
                                else tileFeatures a0)"
    if "annotations ?m' j = Some a" for j a
    using that by (auto simp: addFeature_annotations split: if_splits)
  have 3: "tileFeatures a t \<noteq> Some []" if "annotations ?m' j = Some a" for j a t
    using tf [OF that] refs by (auto simp: map_emplace_def split: option.splits if_splits)
  have 4: "tileFeatures a t \<noteq> None \<longleftrightarrow> (\<exists>e. map_of (annotationTiles ?m') t = Some e \<and> j \<in> set (fst e))"
    if "annotations ?m' j = Some a" for j a t
  proof -
    from tf [OF that] obtain a0 where a0: "annotations ?m j = Some a0"
      and e: "tileFeatures a = (if j = i then map_emplace ?t [nextFeature ?m] (tileFeatures a0)
                                else tileFeatures a0)" by blast
    have "tileFeatures a t \<noteq> None \<longleftrightarrow> (t = ?t \<and> j = i) \<or> tileFeatures a0 t \<noteq> None"
      unfolding e by (auto simp: map_emplace_def split: option.splits)
    then show ?thesis
      unfolding mem using link [OF a0] by simp
  qed
  show ?thesis
    unfolding consistent_def using 1 2 3 4 by blast
qed

lemma fanOut_invariant:
  assumes step: "\<And>z z2 x y st. Q st \<Longrightarrow> Q (addFeature i p s z z2 x y st)"
  shows "Q st \<Longrightarrow> Q (fanOut i p s z z2 x y st)"
  using step
proof (induction i p s z z2 x y st rule: fanOut.induct)
  case (1 annotationID p symbol z z2 x y st)
  show ?case
  proof (cases "0 \<le> sint z")
    case True
    then show ?thesis
      using "1.IH" [OF True] "1.prems" by (subst fanOut.simps) simp
  next
    case False
    then show ?thesis using "1.prems" by (subst fanOut.simps) simp
  qed
qed

lemma fanOut_consistent:
  assumes "consistent (snd st)" and "annotations (snd st) i \<noteq> None"
  shows "consistent (snd (fanOut i p s z z2 x y st)) \<and> annotations (snd (fanOut i p s z z2 x y st)) i \<noteq> None"
  using assms
  by (intro fanOut_invariant [where Q = "\<lambda>st. consistent (snd st) \<and> annotations (snd st) i \<noteq> None"])
     (auto simp add: addFeature_consistent addFeature_live)

section \<open>The invariant and the operations\<close>

lemma addPoint_Some:
  assumes "addPoint point symbol maxZoom st = Some st'"
  shows "st' =
    (fst (fanOut (nextID_field (snd (snd st))) (projectPoint point)
            (case symbol of None \<Rightarrow> [] | Some s \<Rightarrow> s) maxZoom (push_bit (unat maxZoom) 1)
            (topTile (fst (projectPoint point)) maxZoom) (topTile (snd (projectPoint point)) maxZoom)
            (fst st, emplaced point (snd (snd st)))),
     fst (snd st) @ [nextID_field (snd (snd st))],
     snd (fanOut (nextID_field (snd (snd st))) (projectPoint point)
            (case symbol of None \<Rightarrow> [] | Some s \<Rightarrow> s) maxZoom (push_bit (unat maxZoom) 1)
            (topTile (fst (projectPoint point)) maxZoom) (topTile (snd (projectPoint point)) maxZoom)
            (fst st, emplaced point (snd (snd st)))))"
  using assms
  by (auto simp: addPoint_def Let_def nextID_def Annotation_ctor_def getPoint_geometry_def emplaced_def
      topTile_def split: if_splits)

lemma emplaced_live: "annotations (emplaced point m) (nextID_field m) \<noteq> None"
  by (simp add: emplaced_def map_emplace_def split: option.splits)

lemma emplaced_consistent:
  assumes "consistent m"
  shows "consistent (emplaced point m)"
proof (cases "annotations m (nextID_field m)")
  case (Some a)
  then have "emplaced point m = m\<lparr>nextID_field := nextID_field m + 1\<rparr>"
    by (simp add: emplaced_def map_emplace_def)
  then show ?thesis using assms by (simp add: consistent_def)
next
  case None
  let ?i = "nextID_field m"
  from assms None have fresh: "\<And>t e. map_of (annotationTiles m) t = Some e \<Longrightarrow> ?i \<notin> set (fst e)"
    unfolding consistent_def by blast
  have ann: "annotations (emplaced point m) j =
      (if j = ?i then Some \<lparr>type = Point, geometry = [[point]], tileFeatures = Map.empty,
          bounds = \<lparr>sw = point, ne = point\<rparr>\<rparr> else annotations m j)" for j
    using None by (simp add: emplaced_def map_emplace_def)
  have tiles: "annotationTiles (emplaced point m) = annotationTiles m"
    by (simp add: emplaced_def)
  show ?thesis
    using assms fresh unfolding consistent_def tiles ann
    by (auto split: if_splits)
qed

lemma addPoint_consistent:
  assumes "addPoint point symbol maxZoom st = Some st'" and "consistent (snd (snd st))"
  shows "consistent (snd (snd st'))"
proof -
  have e: "snd (snd st') =
     snd (fanOut (nextID_field (snd (snd st))) (projectPoint point)
            (case symbol of None \<Rightarrow> [] | Some s \<Rightarrow> s) maxZoom (push_bit (unat maxZoom) 1)
            (topTile (fst (projectPoint point)) maxZoom) (topTile (snd (projectPoint point)) maxZoom)
            (fst st, emplaced point (snd (snd st))))"
    by (subst addPoint_Some [OF assms(1)]) simp
  show ?thesis
    unfolding e
    using fanOut_consistent [of "(fst st, emplaced point (snd (snd st)))" "nextID_field (snd (snd st))"]
      emplaced_consistent [OF assms(2)] emplaced_live
    by simp
qed

lemma addPoints_invariant:
  assumes step: "\<And>point symbol st st'. addPoint point symbol maxZoom st = Some st' \<Longrightarrow>
                   P (snd (snd st)) \<Longrightarrow> P (snd (snd st'))"
  shows "addPoints points symbols maxZoom st = Some st' \<Longrightarrow> P (snd (snd st)) \<Longrightarrow> P (snd (snd st'))"
proof (induction points arbitrary: symbols st)
  case Nil
  then show ?case by simp
next
  case (Cons point points)
  from Cons.prems(1) obtain st1 where
    a: "addPoint point (case symbols of [] \<Rightarrow> None | s # _ \<Rightarrow> Some s) maxZoom st = Some st1" and
    b: "addPoints points (tl symbols) maxZoom st1 = Some st'"
    by (auto split: option.splits)
  show ?case
    using Cons.IH [OF b] step [OF a] Cons.prems(2) by blast
qed

lemma addPointAnnotations_invariant:
  assumes step: "\<And>point symbol st st'. addPoint point symbol maxZoom st = Some st' \<Longrightarrow>
                   P (snd (snd st)) \<Longrightarrow> P (snd (snd st'))"
    and "addPointAnnotations points symbols maxZoom m = Some (r, m')" and "P m"
  shows "P m'"
proof -
  from assms(2) obtain st' where
    a: "addPoints points symbols maxZoom ([], replicate (length points) 0, m) = Some st'" and
    b: "m' = snd (snd st')"
    by (auto simp: addPointAnnotations_def split: option.splits)
  show ?thesis
    unfolding b using addPoints_invariant [of maxZoom P, OF step a] assms(3) by simp
qed

lemma addPointAnnotations_consistent:
  "addPointAnnotations points symbols maxZoom m = Some (r, m') \<Longrightarrow> consistent m \<Longrightarrow> consistent m'"
  by (rule addPointAnnotations_invariant [where P = consistent]) (auto intro: addPoint_consistent)

lemma removeFromTiles_Some:
  assumes "removeFromTiles i a ts = Some r"
  shows "fst r = map (struck i a) ts \<and> snd r = filter (\<lambda>t. tileFeatures a t \<noteq> None) (map fst ts)"
  using assms
proof (induction ts arbitrary: r)
  case Nil
  then show ?case by auto
next
  case (Cons tile ts)
  then show ?case
    by (auto simp: Let_def struck_def dropFeature_def split: option.splits list.splits)
qed

lemma removeFromTiles_total:
  assumes "\<And>t. tileFeatures a t \<noteq> Some []"
  shows "\<exists>r. removeFromTiles i a ts = Some r"
proof (induction ts)
  case Nil
  show ?case by simp
next
  case (Cons tile ts)
  then obtain r where "removeFromTiles i a ts = Some r" by blast
  then show ?case
    using assms [of "fst tile"] by (auto simp: Let_def split: option.splits list.splits)
qed

lemma map_of_struck:
  "map_of (map (struck i a) ts) t =
   map_option (\<lambda>e. (erase_if (\<lambda>j. j = i) (fst e), dropFeature a t (snd e))) (map_of ts t)"
  by (induction ts) (auto simp: struck_def)

lemma keys_struck: "map fst (map (struck i a) ts) = map fst ts"
  by (simp add: struck_def o_def)

lemma removeAnnotations_invariant:
  assumes step: "\<And>i a m r. P m \<Longrightarrow> annotations m i = Some a \<Longrightarrow>
                   removeFromTiles i a (annotationTiles m) = Some r \<Longrightarrow>
                   P (m\<lparr>annotations := (annotations m)(i := None), annotationTiles := fst r\<rparr>)"
  shows "removeAnnotations ids m = Some (affectedTiles, m') \<Longrightarrow> P m \<Longrightarrow> P m'"
proof (induction ids arbitrary: m affectedTiles)
  case Nil
  then show ?case by simp
next
  case (Cons i ids)
  show ?case
  proof (cases "annotations m i")
    case None
    then show ?thesis using Cons by simp
  next
    case (Some a)
    with Cons.prems(1) obtain r r' where
      r: "removeFromTiles i a (annotationTiles m) = Some r" and
      r': "removeAnnotations ids (m\<lparr>annotations := (annotations m)(i := None), annotationTiles := fst r\<rparr>) = Some r'" and
      e: "m' = snd r'"
      by (auto split: option.splits)
    from r' have "removeAnnotations ids (m\<lparr>annotations := (annotations m)(i := None), annotationTiles := fst r\<rparr>)
        = Some (fst r', m')" using e by simp
    then show ?thesis
      using Cons.IH step [OF Cons.prems(2) Some r] by blast
  qed
qed

lemma remove_step_consistent:
  assumes c: "consistent m" and a: "annotations m i = Some a"
    and r: "removeFromTiles i a (annotationTiles m) = Some r"
  shows "consistent (m\<lparr>annotations := (annotations m)(i := None), annotationTiles := fst r\<rparr>)"
proof -
  let ?m' = "m\<lparr>annotations := (annotations m)(i := None), annotationTiles := fst r\<rparr>"
  from c have d: "distinct (map fst (annotationTiles m))"
    and live: "\<And>t e j. map_of (annotationTiles m) t = Some e \<Longrightarrow> j \<in> set (fst e) \<Longrightarrow> annotations m j \<noteq> None"
    and refs: "\<And>j a t. annotations m j = Some a \<Longrightarrow> tileFeatures a t \<noteq> Some []"
    and link: "\<And>j a t. annotations m j = Some a \<Longrightarrow>
        (tileFeatures a t \<noteq> None \<longleftrightarrow> (\<exists>e. map_of (annotationTiles m) t = Some e \<and> j \<in> set (fst e)))"
    unfolding consistent_def by blast+
  have ts: "annotationTiles ?m' = map (struck i a) (annotationTiles m)"
    using removeFromTiles_Some [OF r] by simp
  have an: "annotations ?m' j = (if j = i then None else annotations m j)" for j
    by simp
  have mem: "(\<exists>e. map_of (annotationTiles ?m') t = Some e \<and> j \<in> set (fst e)) \<longleftrightarrow>
             j \<noteq> i \<and> (\<exists>e. map_of (annotationTiles m) t = Some e \<and> j \<in> set (fst e))" for t j
    unfolding ts map_of_struck by (cases "map_of (annotationTiles m) t") (auto simp: erase_if_def)
  have 1: "distinct (map fst (annotationTiles ?m'))"
    unfolding ts keys_struck by (rule d)
  have 2: "annotations ?m' j \<noteq> None" if "map_of (annotationTiles ?m') t = Some e" "j \<in> set (fst e)" for t e j
  proof -
    from that have "j \<noteq> i \<and> (\<exists>e. map_of (annotationTiles m) t = Some e \<and> j \<in> set (fst e))"
      using mem [of t j] by blast
    then show ?thesis unfolding an using live by auto
  qed
  have 3: "tileFeatures b t \<noteq> Some []" if "annotations ?m' j = Some b" for j b t
    using that refs [of j b t] unfolding an by (simp split: if_splits)
  have 4: "tileFeatures b t \<noteq> None \<longleftrightarrow> (\<exists>e. map_of (annotationTiles ?m') t = Some e \<and> j \<in> set (fst e))"
    if "annotations ?m' j = Some b" for j b t
  proof -
    from that have "j \<noteq> i" "annotations m j = Some b"
      unfolding an by (simp_all split: if_splits)
    then show ?thesis unfolding mem using link [of j b t] by simp
  qed
  show ?thesis
    unfolding consistent_def using 1 2 3 4 by blast
qed

lemma removeAnnotations_consistent:
  "removeAnnotations ids m = Some (affectedTiles, m') \<Longrightarrow> consistent m \<Longrightarrow> consistent m'"
  by (rule removeAnnotations_invariant [where P = consistent]) (auto intro: remove_step_consistent)

lemma reachable_consistent: "reachable m \<Longrightarrow> consistent m"
  by (induction rule: reachable.induct)
     (auto intro: consistent_ctor consistent_setDefault addPointAnnotations_consistent
        removeAnnotations_consistent)

section \<open>Live IDs in the tile entries\<close>

lemma set_tiles_modify:
  "tile \<in> set (tiles_modify k f ts) \<Longrightarrow> tile \<in> set ts \<or> (\<exists>e. (k, e) \<in> set ts \<and> tile = (k, f e))"
proof (induction ts)
  case Nil
  then show ?case by simp
next
  case (Cons a ts)
  show ?case
  proof (cases "k = fst a")
    case True
    then have "tiles_modify k f (a # ts) = (k, f (snd a)) # ts" by (cases a) simp
    moreover have "(k, snd a) \<in> set (a # ts)" using True by (cases a) simp
    ultimately show ?thesis using Cons.prems by (metis set_ConsD list.set_intros(2))
  next
    case False
    then have "tiles_modify k f (a # ts) = a # tiles_modify k f ts" by (cases a) auto
    then show ?thesis using Cons by (metis set_ConsD list.set_intros)
  qed
qed

lemma set_tiles_emplace: "set (tiles_emplace k v ts) \<subseteq> insert (k, v) (set ts)"
  by (induction k v ts rule: tiles_emplace.induct) (auto split: if_splits)

lemma addFeature_entries:
  assumes "tile \<in> set (annotationTiles (snd (addFeature i p s z z2 x y st)))"
  shows "tile \<in> set (annotationTiles (snd st)) \<or>
         set (fst (snd tile)) \<subseteq> insert i (\<Union>tile'\<in>set (annotationTiles (snd st)). set (fst (snd tile')))"
proof (cases "map_of (annotationTiles (snd st)) (tileOf z x y)")
  case None
  then have "tile \<in> insert (tileOf z x y, ([i], [makeFeature (snd st) p s z2 x y])) (set (annotationTiles (snd st)))"
    using assms set_tiles_emplace by (fastforce simp: addFeature_def Let_def)
  then show ?thesis by auto
next
  case (Some e)
  let ?f = "\<lambda>e. (fst e @ [i], snd e @ [makeFeature (snd st) p s z2 x y])"
  from Some assms have "tile \<in> set (tiles_modify (tileOf z x y) ?f (annotationTiles (snd st)))"
    by (simp add: addFeature_def Let_def)
  from set_tiles_modify [OF this] show ?thesis by fastforce
qed

lemma addFeature_liveIDs:
  assumes "liveIDs (snd st)" and "annotations (snd st) i \<noteq> None"
  shows "liveIDs (snd (addFeature i p s z z2 x y st))"
  unfolding liveIDs_def
proof (intro ballI)
  fix tile j
  assume t: "tile \<in> set (annotationTiles (snd (addFeature i p s z z2 x y st)))"
    and j: "j \<in> set (fst (snd tile))"
  from addFeature_entries [OF t] j assms have "annotations (snd st) j \<noteq> None"
    unfolding liveIDs_def by blast
  then show "annotations (snd (addFeature i p s z z2 x y st)) j \<noteq> None"
    using addFeature_live [of i p s z z2 x y st j] by simp
qed

lemma fanOut_liveIDs:
  assumes "liveIDs (snd st)" and "annotations (snd st) i \<noteq> None"
  shows "liveIDs (snd (fanOut i p s z z2 x y st))"
proof -
  have "liveIDs (snd (fanOut i p s z z2 x y st)) \<and> annotations (snd (fanOut i p s z z2 x y st)) i \<noteq> None"
    using assms
    by (intro fanOut_invariant [where Q = "\<lambda>st. liveIDs (snd st) \<and> annotations (snd st) i \<noteq> None"])
       (auto simp add: addFeature_liveIDs addFeature_live)
  then show ?thesis by simp
qed

lemma emplaced_liveIDs: "liveIDs m \<Longrightarrow> liveIDs (emplaced point m)"
  unfolding liveIDs_def by (auto simp: emplaced_def map_emplace_def split: option.splits)

lemma addPoint_liveIDs:
  assumes "addPoint point symbol maxZoom st = Some st'" and "liveIDs (snd (snd st))"
  shows "liveIDs (snd (snd st'))"
  by (subst addPoint_Some [OF assms(1)])
     (simp add: fanOut_liveIDs emplaced_liveIDs [OF assms(2)] emplaced_live)

lemma addPointAnnotations_liveIDs:
  "addPointAnnotations points symbols maxZoom m = Some (r, m') \<Longrightarrow> liveIDs m \<Longrightarrow> liveIDs m'"
  by (rule addPointAnnotations_invariant [where P = liveIDs]) (auto intro: addPoint_liveIDs)

lemma remove_step_liveIDs:
  assumes "liveIDs m" and "removeFromTiles i a (annotationTiles m) = Some r"
  shows "liveIDs (m\<lparr>annotations := (annotations m)(i := None), annotationTiles := fst r\<rparr>)"
  using assms(1) removeFromTiles_Some [OF assms(2)]
  unfolding liveIDs_def by (auto simp: struck_def erase_if_def)

lemma removeAnnotations_liveIDs:
  "removeAnnotations ids m = Some (affectedTiles, m') \<Longrightarrow> liveIDs m \<Longrightarrow> liveIDs m'"
  by (rule removeAnnotations_invariant [where P = liveIDs]) (auto intro: remove_step_liveIDs)

lemma query_live:
  assumes "liveIDs m" and "i \<in> set (getAnnotationsInBounds queryBounds maxZoom m)"
  shows "annotations m i \<noteq> None"
  using assms unfolding liveIDs_def getAnnotationsInBounds_def matchTiles_iff by blast

text \<open>
  Claim C7: that every ID in the contributing list of a tile entry is a key of the
  annotation table holds of a new manager and is preserved by
  \<open>setDefaultPointAnnotationSymbol\<close>, \<open>addPointAnnotations\<close> and \<open>removeAnnotations\<close>;
  it holds in every state a manager reaches, and where it holds every ID that
  \<open>getAnnotationsInBounds\<close> returns is the key of a live annotation.
\<close>

theorem liveIDs_invariant:
  "liveIDs AnnotationManager_ctor \<and>
   (liveIDs m \<longrightarrow> liveIDs (setDefaultPointAnnotationSymbol symbol m)) \<and>
   (liveIDs m \<longrightarrow> addPointAnnotations points symbols maxZoom m = Some (r, m1) \<longrightarrow> liveIDs m1) \<and>
   (liveIDs m \<longrightarrow> removeAnnotations ids m = Some (affectedTiles, m2) \<longrightarrow> liveIDs m2) \<and>
   (reachable m \<longrightarrow> liveIDs m) \<and>
   (liveIDs m \<longrightarrow> (\<forall>i\<in>set (getAnnotationsInBounds queryBounds zoom m). annotations m i \<noteq> None))"
proof -
  have c: "liveIDs AnnotationManager_ctor"
    by (simp add: liveIDs_def AnnotationManager_ctor_def)
  have s: "liveIDs (setDefaultPointAnnotationSymbol symbol m)" if "liveIDs m" for m symbol
    using that by (simp add: liveIDs_def setDefaultPointAnnotationSymbol_def)
  have "liveIDs m" if "reachable m"
    using that
    by (induction rule: reachable.induct)
       (auto intro: c s addPointAnnotations_liveIDs removeAnnotations_liveIDs)
  then show ?thesis
    using c s addPointAnnotations_liveIDs removeAnnotations_liveIDs query_live by blast
qed

theorem liveIDs_invariant_scenario:
  "liveIDs (setDefaultPointAnnotationSymbol ''marker'' AnnotationManager_ctor) \<and>
   liveIDs scenario_added \<and> annotations scenario_added 0 \<noteq> None"
proof -
  have 1: "liveIDs (setDefaultPointAnnotationSymbol ''marker'' AnnotationManager_ctor)"
    using liveIDs_invariant [where m = AnnotationManager_ctor and symbol = "''marker''"] by blast
  have 2: "liveIDs scenario_added"
    using liveIDs_invariant
      [where m = "setDefaultPointAnnotationSymbol ''marker'' AnnotationManager_ctor"
         and points = "[origin]" and symbols = "[[]]" and maxZoom = 2 and ?m1.0 = scenario_added]
      1 scenario_add by blast
  have "0 \<in> set (getAnnotationsInBounds scenario_box 2 scenario_added)"
    by (simp add: scenario_query)
  with 2 have "annotations scenario_added 0 \<noteq> None"
    using liveIDs_invariant [where m = scenario_added and queryBounds = scenario_box and zoom = 2]
    by blast
  with 1 2 show ?thesis by blast
qed

section \<open>The keys of the tile table\<close>

lemma fanOut_keys:
  assumes "K \<subseteq> set (map fst (annotationTiles (snd st)))"
  shows "K \<subseteq> set (map fst (annotationTiles (snd (fanOut i p s z z2 x y st))))"
  using assms
  by (intro fanOut_invariant [where Q = "\<lambda>st. K \<subseteq> set (map fst (annotationTiles (snd st)))"])
     (auto simp add: addFeature_keys simp del: set_map)

lemma addPoint_keys:
  assumes "addPoint point symbol maxZoom st = Some st'"
    and "K \<subseteq> set (map fst (annotationTiles (snd (snd st))))"
  shows "K \<subseteq> set (map fst (annotationTiles (snd (snd st'))))"
proof -
  have "annotationTiles (emplaced point (snd (snd st))) = annotationTiles (snd (snd st))"
    by (simp add: emplaced_def)
  with assms(2) show ?thesis
    by (subst addPoint_Some [OF assms(1)]) (simp add: fanOut_keys del: set_map)
qed

lemma addPointAnnotations_keys:
  assumes "addPointAnnotations points symbols maxZoom m = Some (r, m')"
  shows "set (map fst (annotationTiles m)) \<subseteq> set (map fst (annotationTiles m'))"
proof (rule addPointAnnotations_invariant
        [where P = "\<lambda>m'. set (map fst (annotationTiles m)) \<subseteq> set (map fst (annotationTiles m'))",
         OF _ assms])
  fix point symbol st st'
  assume "addPoint point symbol maxZoom st = Some st'"
    and "set (map fst (annotationTiles m)) \<subseteq> set (map fst (annotationTiles (snd (snd st))))"
  then show "set (map fst (annotationTiles m)) \<subseteq> set (map fst (annotationTiles (snd (snd st'))))"
    by (rule addPoint_keys)
qed simp

lemma removeAnnotations_keys:
  assumes "removeAnnotations ids m = Some (affectedTiles, m')"
  shows "map fst (annotationTiles m') = map fst (annotationTiles m)"
proof (rule removeAnnotations_invariant
        [where P = "\<lambda>m'. map fst (annotationTiles m') = map fst (annotationTiles m)", OF _ assms])
  fix i a m'' r
  assume k: "map fst (annotationTiles m'') = map fst (annotationTiles m)"
    and "removeFromTiles i a (annotationTiles m'') = Some r"
  then have "fst r = map (struck i a) (annotationTiles m'')"
    using removeFromTiles_Some [of i a "annotationTiles m''" r] by simp
  then have "map fst (fst r) = map fst (annotationTiles m)"
    using keys_struck [of i a "annotationTiles m''"] k by simp
  then show "map fst (annotationTiles (m''\<lparr>annotations := (annotations m'')(i := None),
                annotationTiles := fst r\<rparr>)) = map fst (annotationTiles m)"
    by simp
qed simp

text \<open>
  Claim C9: no operation removes a key of the tile table.  Along every sequence of
  operations the set of keys only grows; \<open>addPointAnnotations\<close> keeps every key, and
  \<open>removeAnnotations\<close> leaves the keys, and their order, as they are.
\<close>

theorem tile_keys_kept:
  "(evolves m m' \<longrightarrow> set (map fst (annotationTiles m)) \<subseteq> set (map fst (annotationTiles m'))) \<and>
   (addPointAnnotations points symbols maxZoom m = Some (r, m1) \<longrightarrow>
      set (map fst (annotationTiles m)) \<subseteq> set (map fst (annotationTiles m1))) \<and>
   (removeAnnotations ids m = Some (affectedTiles, m2) \<longrightarrow>
      map fst (annotationTiles m2) = map fst (annotationTiles m))"
proof -
  have "set (map fst (annotationTiles m)) \<subseteq> set (map fst (annotationTiles m'))" if "evolves m m'"
    using that
  proof (induction rule: evolves.induct)
    case (evolves_refl m)
    show ?case by simp
  next
    case (evolves_setDefault m m' symbol)
    then show ?case by (simp add: setDefaultPointAnnotationSymbol_def)
  next
    case (evolves_add m m' points symbols maxZoom r m'')
    then show ?case using addPointAnnotations_keys by blast
  next
    case (evolves_remove m m' ids affectedTiles m'')
    then show ?case using removeAnnotations_keys by metis
  qed
  then show ?thesis
    using addPointAnnotations_keys removeAnnotations_keys by blast
qed

theorem tile_keys_kept_scenario:
  "evolves scenario_added scenario_removed \<and>
   set (map fst (annotationTiles scenario_added)) \<subseteq> set (map fst (annotationTiles scenario_removed)) \<and>
   map fst (annotationTiles scenario_removed) = map fst (annotationTiles scenario_added) \<and>
   annotations scenario_removed = Map.empty"
proof -
  have e: "evolves scenario_added scenario_removed"
    using evolves_remove [OF evolves_refl scenario_remove] .
  have "annotations scenario_removed = Map.empty"
    by (simp add: scenario_removed_def)
  then show ?thesis
    using e scenario_remove
      tile_keys_kept [where m = scenario_added and m' = scenario_removed and ids = "[0]"
        and ?m2.0 = scenario_removed]
    by blast
qed

section \<open>Removing IDs that are absent\<close>

lemma removeAnnotations_skip:
  "A \<inter> dom (annotations m) = {} \<Longrightarrow>
   removeAnnotations (filter (\<lambda>i. i \<notin> A) ids) m = removeAnnotations ids m"
proof (induction ids arbitrary: m)
  case Nil
  show ?case by simp
next
  case (Cons i ids)
  show ?case
  proof (cases "annotations m i")
    case None
    then show ?thesis using Cons by simp
  next
    case (Some a)
    then have "i \<notin> A" using Cons.prems by auto
    have "removeAnnotations (filter (\<lambda>i. i \<notin> A) ids)
            (m\<lparr>annotations := (annotations m)(i := None), annotationTiles := ts\<rparr>) =
          removeAnnotations ids (m\<lparr>annotations := (annotations m)(i := None), annotationTiles := ts\<rparr>)"
      for ts
      by (rule Cons.IH) (use Cons.prems in \<open>auto split: if_splits\<close>)
    then show ?thesis
      using Some \<open>i \<notin> A\<close> by (simp split: option.splits)
  qed
qed

lemma removeAnnotations_all_absent:
  "\<forall>i\<in>set ids. annotations m i = None \<Longrightarrow> removeAnnotations ids m = Some ([], m)"
  by (induction ids) simp_all

lemma removeAnnotations_stays_absent:
  assumes "removeAnnotations ids m = Some (affectedTiles, m')" and "annotations m i = None"
  shows "annotations m' i = None"
  by (rule removeAnnotations_invariant [where P = "\<lambda>m. annotations m i = None", OF _ assms]) simp

lemma removeAnnotations_erases:
  "removeAnnotations ids m = Some (affectedTiles, m') \<Longrightarrow> \<forall>i\<in>set ids. annotations m' i = None"
proof (induction ids arbitrary: m affectedTiles)
  case Nil
  show ?case by simp
next
  case (Cons i ids)
  show ?case
  proof (cases "annotations m i")
    case None
    with Cons.prems have r: "removeAnnotations ids m = Some (affectedTiles, m')" by simp
    show ?thesis
      using Cons.IH [OF r] removeAnnotations_stays_absent [OF r None] by simp
  next
    case (Some a)
    with Cons.prems obtain r r' where
      r': "removeAnnotations ids (m\<lparr>annotations := (annotations m)(i := None), annotationTiles := fst r\<rparr>)
            = Some (fst r', m')"
      by (auto split: option.splits)
    show ?thesis
      using Cons.IH [OF r'] removeAnnotations_stays_absent [OF r'] by simp
  qed
qed

lemma removeAnnotations_total:
  "consistent m \<Longrightarrow> \<exists>r. removeAnnotations ids m = Some r"
proof (induction ids arbitrary: m)
  case Nil
  show ?case by simp
next
  case (Cons i ids)
  show ?case
  proof (cases "annotations m i")
    case None
    then show ?thesis using Cons by simp
  next
    case (Some a)
    from Cons.prems Some have "\<And>t. tileFeatures a t \<noteq> Some []"
      unfolding consistent_def by blast
    from removeFromTiles_total [OF this] obtain r where
      r: "removeFromTiles i a (annotationTiles m) = Some r" by blast
    from Cons.IH [OF remove_step_consistent [OF Cons.prems Some r]] obtain r' where
      "removeAnnotations ids (m\<lparr>annotations := (annotations m)(i := None), annotationTiles := fst r\<rparr>)
         = Some r'" by blast
    then show ?thesis using Some r by simp
  qed
qed

text \<open>
  Claim C6: IDs that are not keys of the annotation table are ignored by
  \<open>removeAnnotations\<close>.  A call gives the same outcome (the same tiles, the same new
  state, failure or not) as the call without the IDs of any set \<open>A\<close> of absent IDs; a
  call whose IDs are all absent returns no tile and leaves the state as it is; after
  a call, the same call again returns no tile and changes nothing; and in a state
  that a manager can reach, no call fails.
\<close>

theorem removeAnnotations_absent_ids:
  "(A \<inter> dom (annotations m) = {} \<longrightarrow>
      removeAnnotations (filter (\<lambda>i. i \<notin> A) ids) m = removeAnnotations ids m) \<and>
   ((\<forall>i\<in>set ids. annotations m i = None) \<longrightarrow> removeAnnotations ids m = Some ([], m)) \<and>
   (removeAnnotations ids m = Some (affectedTiles, m') \<longrightarrow> removeAnnotations ids m' = Some ([], m')) \<and>
   (reachable m \<longrightarrow> (\<exists>r. removeAnnotations ids m = Some r))"
  using removeAnnotations_skip [of A m ids] removeAnnotations_all_absent [of ids]
    removeAnnotations_erases [of ids m affectedTiles m']
    removeAnnotations_total [of m ids] reachable_consistent [of m]
  by blast

theorem removeAnnotations_absent_ids_scenario:
  "removeAnnotations [5, 0, 0] scenario_added = removeAnnotations [0, 0] scenario_added \<and>
   removeAnnotations [5, 7] scenario_added = Some ([], scenario_added) \<and>
   removeAnnotations [0] scenario_removed = Some ([], scenario_removed)"
proof -
  have d: "{5} \<inter> dom (annotations scenario_added) = {}"
    by (simp add: scenario_added_def)
  have "removeAnnotations (filter (\<lambda>i. i \<notin> {5}) [5, 0, 0]) scenario_added =
        removeAnnotations [5, 0, 0] scenario_added"
    using removeAnnotations_absent_ids [where A = "{5}" and m = scenario_added] d by blast
  then have 1: "removeAnnotations [5, 0, 0] scenario_added = removeAnnotations [0, 0] scenario_added"
    by simp
  have "\<forall>i\<in>set [5, 7]. annotations scenario_added i = None"
    by (simp add: scenario_added_def)
  then have 2: "removeAnnotations [5, 7] scenario_added = Some ([], scenario_added)"
    using removeAnnotations_absent_ids [where ids = "[5, 7]" and m = scenario_added] by blast
  have 3: "removeAnnotations [0] scenario_removed = Some ([], scenario_removed)"
    using removeAnnotations_absent_ids [where ids = "[0]" and m = scenario_added and m' = scenario_removed]
      scenario_remove by blast
  from 1 2 3 show ?thesis by blast
qed

section \<open>The tiles reported by a removal\<close>

lemma pair_add:
  "addPointAnnotations [origin, origin] [[], []] 0 AnnotationManager_ctor =
   Some (([\<lparr>tile_z = 0, tile_x = 0, tile_y = 0\<rparr>, \<lparr>tile_z = 0, tile_x = 0, tile_y = 0\<rparr>],
          [0, 0, 0, 1]), pair_added)"
  apply (simp add: addPointAnnotations_def addPoint_def nextID_def Annotation_ctor_def getPoint_geometry_def
      AnnotationManager_ctor_def projectPoint_origin double_to_uint32_def double_to_int_def map_emplace_def
      fanOut.simps addFeature_def tileOf_def makeFeature_def extent_def tile_less_def Let_def pair_added_def)
  done

lemma pair_reachable: "reachable pair_added"
  using reachable_add [OF reachable_ctor pair_add] .

lemma pair_remove:
  "map_option fst (removeAnnotations [0, 1] pair_added) =
   Some [\<lparr>tile_z = 0, tile_x = 0, tile_y = 0\<rparr>, \<lparr>tile_z = 0, tile_x = 0, tile_y = 0\<rparr>]"
  by (simp add: pair_added_def erase_if_def)

text \<open>
  Claim C3 says that the value returned by \<open>removeAnnotations\<close> holds each changed tile
  once.  It does not: removing the two annotations of \<open>pair_added\<close>, a state that a
  manager reaches by one call of \<open>addPointAnnotations\<close>, returns the tile of zoom 0
  twice.
\<close>

theorem removeAnnotations_repeats_tile:
  "reachable pair_added \<and>
   map_option (\<lambda>r. (fst r, distinct (fst r))) (removeAnnotations [0, 1] pair_added) =
     Some ([\<lparr>tile_z = 0, tile_x = 0, tile_y = 0\<rparr>, \<lparr>tile_z = 0, tile_x = 0, tile_y = 0\<rparr>], False)"
proof -
  have "map_option (\<lambda>r. (fst r, distinct (fst r))) (removeAnnotations [0, 1] pair_added) =
     Some ([\<lparr>tile_z = 0, tile_x = 0, tile_y = 0\<rparr>, \<lparr>tile_z = 0, tile_x = 0, tile_y = 0\<rparr>], False)"
    by (simp add: pair_added_def erase_if_def)
  then show ?thesis using pair_reachable by blast
qed

lemma removeAnnotations_affected:
  "removeAnnotations ids m = Some (affectedTiles, m') \<Longrightarrow>
   set affectedTiles =
     {t \<in> set (map fst (annotationTiles m)).
        \<exists>i\<in>set ids. \<exists>a. annotations m i = Some a \<and> tileFeatures a t \<noteq> None}"
proof (induction ids arbitrary: m affectedTiles)
  case Nil
  then show ?case by auto
next
  case (Cons i ids)
  show ?case
  proof (cases "annotations m i")
    case None
    with Cons.prems have "removeAnnotations ids m = Some (affectedTiles, m')" by simp
    from Cons.IH [OF this] None show ?thesis by auto
  next
    case (Some a)
    let ?m1 = "\<lambda>r. m\<lparr>annotations := (annotations m)(i := None), annotationTiles := fst r\<rparr>"
    from Some Cons.prems obtain r r' where
      r: "removeFromTiles i a (annotationTiles m) = Some r" and
      r': "removeAnnotations ids (?m1 r) = Some (fst r', m')" and
      e: "affectedTiles = snd r @ fst r'"
      by (auto split: option.splits)
    note s = removeFromTiles_Some [OF r]
    have k: "map fst (annotationTiles (?m1 r)) = map fst (annotationTiles m)"
      using s keys_struck [of i a "annotationTiles m"] by simp
    have an: "annotations (?m1 r) j = Some b \<longleftrightarrow> j \<noteq> i \<and> annotations m j = Some b" for j b
      by auto
    have 1: "set (fst r') =
      {t \<in> set (map fst (annotationTiles m)).
         \<exists>j\<in>set ids. \<exists>b. (j \<noteq> i \<and> annotations m j = Some b) \<and> tileFeatures b t \<noteq> None}"
      using Cons.IH [OF r'] unfolding k an .
    have 2: "set (snd r) = {t \<in> set (map fst (annotationTiles m)). tileFeatures a t \<noteq> None}"
      using s by auto
    show ?thesis
    proof (intro set_eqI iffI)
      fix t
      assume "t \<in> set affectedTiles"
      then have "t \<in> set (snd r) \<or> t \<in> set (fst r')" unfolding e by simp
      then show "t \<in> {t \<in> set (map fst (annotationTiles m)).
                    \<exists>i\<in>set (i # ids). \<exists>a. annotations m i = Some a \<and> tileFeatures a t \<noteq> None}"
        unfolding 1 2 using Some by (simp del: set_map) blast
    next
      fix t
      assume "t \<in> {t \<in> set (map fst (annotationTiles m)).
                    \<exists>i\<in>set (i # ids). \<exists>a. annotations m i = Some a \<and> tileFeatures a t \<noteq> None}"
      then have "t \<in> set (snd r) \<or> t \<in> set (fst r')"
        unfolding 1 2 using Some by (simp del: set_map) (metis option.inject)
      then show "t \<in> set affectedTiles" unfolding e by simp
    qed
  qed
qed

lemma removeAnnotations_lists:
  "removeAnnotations ids m = Some (affectedTiles, m') \<Longrightarrow>
   map_option fst (map_of (annotationTiles m') t) =
   map_option (\<lambda>e. filter (\<lambda>j. j \<notin> set ids \<or> annotations m j = None) (fst e))
     (map_of (annotationTiles m) t)"
proof (induction ids arbitrary: m affectedTiles)
  case Nil
  then show ?case by (auto simp: option.map_comp o_def option.map_ident)
next
  case (Cons i ids)
  show ?case
  proof (cases "annotations m i")
    case None
    with Cons.prems have "removeAnnotations ids m = Some (affectedTiles, m')" by simp
    from Cons.IH [OF this]
    have "map_option fst (map_of (annotationTiles m') t) =
          map_option (\<lambda>e. filter (\<lambda>j. j \<notin> set ids \<or> annotations m j = None) (fst e))
            (map_of (annotationTiles m) t)" .
    moreover have "(\<lambda>j. j \<notin> set ids \<or> annotations m j = None) =
                   (\<lambda>j. j \<notin> set (i # ids) \<or> annotations m j = None)"
      using None by auto
    ultimately show ?thesis by simp
  next
    case (Some a)
    let ?m1 = "\<lambda>r. m\<lparr>annotations := (annotations m)(i := None), annotationTiles := fst r\<rparr>"
    from Some Cons.prems obtain r r' where
      r: "removeFromTiles i a (annotationTiles m) = Some r" and
      r': "removeAnnotations ids (?m1 r) = Some (fst r', m')"
      by (auto split: option.splits)
    have ts: "annotationTiles (?m1 r) = map (struck i a) (annotationTiles m)"
      using removeFromTiles_Some [OF r] by simp
    define Q where "Q = (\<lambda>j. j \<notin> set ids \<or> annotations (?m1 r) j = None)"
    define P where "P = (\<lambda>j. j \<notin> set (i # ids) \<or> annotations m j = None)"
    have f: "filter Q (erase_if (\<lambda>j. j = i) l) = filter P l" for l
      unfolding Q_def P_def using Some by (auto simp: erase_if_def intro: filter_cong)
    have "map_option fst (map_of (annotationTiles m') t) =
          map_option (\<lambda>e. filter Q (fst e)) (map_of (annotationTiles (?m1 r)) t)"
      using Cons.IH [OF r'] unfolding Q_def .
    also have "\<dots> = map_option (\<lambda>e. filter Q (erase_if (\<lambda>j. j = i) (fst e))) (map_of (annotationTiles m) t)"
      unfolding ts map_of_struck by (simp add: option.map_comp o_def)
    also have "\<dots> = map_option (\<lambda>e. filter P (fst e)) (map_of (annotationTiles m) t)"
      unfolding f ..
    finally show ?thesis unfolding P_def .
  qed
qed

lemma removeAnnotations_layers:
  "removeAnnotations ids m = Some (affectedTiles, m') \<Longrightarrow>
   \<forall>i\<in>set ids. \<forall>a. annotations m i = Some a \<longrightarrow> tileFeatures a t = None \<Longrightarrow>
   map_option snd (map_of (annotationTiles m') t) = map_option snd (map_of (annotationTiles m) t)"
proof (induction ids arbitrary: m affectedTiles)
  case Nil
  then show ?case by auto
next
  case (Cons i ids)
  show ?case
  proof (cases "annotations m i")
    case None
    with Cons.prems have "removeAnnotations ids m = Some (affectedTiles, m')" by simp
    from Cons.IH [OF this] Cons.prems(2) show ?thesis by simp
  next
    case (Some a)
    let ?m1 = "\<lambda>r. m\<lparr>annotations := (annotations m)(i := None), annotationTiles := fst r\<rparr>"
    from Some Cons.prems obtain r r' where
      r: "removeFromTiles i a (annotationTiles m) = Some r" and
      r': "removeAnnotations ids (?m1 r) = Some (fst r', m')"
      by (auto split: option.splits)
    have ts: "annotationTiles (?m1 r) = map (struck i a) (annotationTiles m)"
      using removeFromTiles_Some [OF r] by simp
    have "tileFeatures a t = None" using Cons.prems(2) Some by simp
    then have d: "dropFeature a t layer = layer" for layer
      by (simp add: dropFeature_def)
    have "\<forall>j\<in>set ids. \<forall>b. annotations (?m1 r) j = Some b \<longrightarrow> tileFeatures b t = None"
      using Cons.prems(2) by (auto split: if_splits)
    from Cons.IH [OF r' this] show ?thesis
      unfolding ts map_of_struck by (simp add: option.map_comp o_def d)
  qed
qed

lemma removeAnnotations_count:
  "consistent m \<Longrightarrow> removeAnnotations ids m = Some (affectedTiles, m') \<Longrightarrow>
   count (mset affectedTiles) t =
     card {i \<in> set ids. \<exists>a. annotations m i = Some a \<and> tileFeatures a t \<noteq> None}"
proof (induction ids arbitrary: m affectedTiles)
  case Nil
  then show ?case by auto
next
  case (Cons i ids)
  show ?case
  proof (cases "annotations m i")
    case None
    with Cons.prems have "removeAnnotations ids m = Some (affectedTiles, m')" by simp
    from Cons.IH [OF Cons.prems(1) this]
    have "count (mset affectedTiles) t =
          card {i \<in> set ids. \<exists>a. annotations m i = Some a \<and> tileFeatures a t \<noteq> None}" .
    moreover have "{j \<in> set (i # ids). \<exists>a. annotations m j = Some a \<and> tileFeatures a t \<noteq> None} =
                   {j \<in> set ids. \<exists>a. annotations m j = Some a \<and> tileFeatures a t \<noteq> None}"
      using None by auto
    ultimately show ?thesis by simp
  next
    case (Some a)
    let ?m1 = "\<lambda>r. m\<lparr>annotations := (annotations m)(i := None), annotationTiles := fst r\<rparr>"
    let ?S = "{j \<in> set ids. \<exists>b. annotations (?m1 r) j = Some b \<and> tileFeatures b t \<noteq> None}" 
    from Some Cons.prems obtain r r' where
      r: "removeFromTiles i a (annotationTiles m) = Some r" and
      r': "removeAnnotations ids (?m1 r) = Some (fst r', m')" and
      e: "affectedTiles = snd r @ fst r'"
      by (auto split: option.splits)
    define S where "S = {j \<in> set ids. \<exists>b. annotations (?m1 r) j = Some b \<and> tileFeatures b t \<noteq> None}"
    have S: "finite S" "i \<notin> S" unfolding S_def by auto
    have c1: "count (mset (fst r')) t = card S"
      unfolding S_def by (rule Cons.IH [OF remove_step_consistent [OF Cons.prems(1) Some r] r'])
    from Cons.prems(1) have d: "distinct (map fst (annotationTiles m))"
      and link: "tileFeatures a t \<noteq> None \<longleftrightarrow> (\<exists>e. map_of (annotationTiles m) t = Some e \<and> i \<in> set (fst e))"
      using Some unfolding consistent_def by blast+
    have "t \<in> set (map fst (annotationTiles m))" if "tileFeatures a t \<noteq> None"
      using that link map_of_None_keys [of "annotationTiles m" t] by auto
    then have "count (mset (map fst (annotationTiles m))) t = 1" if "tileFeatures a t \<noteq> None"
      using that d distinct_count_atmost_1 [of "map fst (annotationTiles m)"] by simp
    moreover have "mset (snd r) = filter_mset (\<lambda>t. tileFeatures a t \<noteq> None) (mset (map fst (annotationTiles m)))"
      using removeFromTiles_Some [OF r] by simp
    ultimately have c2: "count (mset (snd r)) t = (if tileFeatures a t \<noteq> None then 1 else 0)"
      by simp
    have "{j \<in> set (i # ids). \<exists>b. annotations m j = Some b \<and> tileFeatures b t \<noteq> None} =
          (if tileFeatures a t \<noteq> None then insert i S else S)"
      unfolding S_def using Some by (auto split: if_splits)
    then have "card {j \<in> set (i # ids). \<exists>b. annotations m j = Some b \<and> tileFeatures b t \<noteq> None} =
          (if tileFeatures a t \<noteq> None then 1 else 0) + card S"
      using S by simp
    then show ?thesis
      unfolding e using c1 c2 by simp
  qed
qed

text \<open>
  Claim C3, amended: in a state that a manager reaches, a tile is in the list returned
  by \<open>removeAnnotations\<close> exactly when the call has changed the entry of the tile; and
  the list holds the tile once for each annotation that the call has removed and that
  held a feature in the tile.
\<close>

theorem removeAnnotations_changed_tiles:
  assumes "reachable m" and "removeAnnotations ids m = Some (affectedTiles, m')"
  shows "(t \<in> set affectedTiles \<longleftrightarrow>
            map_of (annotationTiles m') t \<noteq> map_of (annotationTiles m) t) \<and>
         count (mset affectedTiles) t =
           card {i \<in> set ids. \<exists>a. annotations m i = Some a \<and> tileFeatures a t \<noteq> None}"
proof (rule conjI)
  show "count (mset affectedTiles) t =
           card {i \<in> set ids. \<exists>a. annotations m i = Some a \<and> tileFeatures a t \<noteq> None}"
    by (rule removeAnnotations_count [OF reachable_consistent [OF assms(1)] assms(2)])
next
  from reachable_consistent [OF assms(1)]
  have link: "\<And>j a t. annotations m j = Some a \<Longrightarrow>
        (tileFeatures a t \<noteq> None \<longleftrightarrow> (\<exists>e. map_of (annotationTiles m) t = Some e \<and> j \<in> set (fst e)))"
    unfolding consistent_def by blast
  note A = removeAnnotations_affected [OF assms(2)]
  note B = removeAnnotations_lists [OF assms(2), of t]
  let ?P = "\<lambda>j. j \<notin> set ids \<or> annotations m j = None"
  show "t \<in> set affectedTiles \<longleftrightarrow>
            map_of (annotationTiles m') t \<noteq> map_of (annotationTiles m) t"
  proof
    assume "t \<in> set affectedTiles"
    then obtain i a where i: "i \<in> set ids" "annotations m i = Some a" "tileFeatures a t \<noteq> None"
      unfolding A by blast
    with link [of i a t] obtain e where e: "map_of (annotationTiles m) t = Some e" "i \<in> set (fst e)"
      by blast
    have "i \<notin> set (filter ?P (fst e))" using i by simp
    then have "filter ?P (fst e) \<noteq> fst e" using e(2) by metis
    then have "map_option fst (map_of (annotationTiles m') t) \<noteq> map_option fst (map_of (annotationTiles m) t)"
      unfolding B e(1) by simp
    then show "map_of (annotationTiles m') t \<noteq> map_of (annotationTiles m) t" by metis
  next
    assume ne: "map_of (annotationTiles m') t \<noteq> map_of (annotationTiles m) t"
    show "t \<in> set affectedTiles"
    proof (rule ccontr)
      assume n: "t \<notin> set affectedTiles"
      show False
      proof (cases "map_of (annotationTiles m) t")
        case None
        with B have "map_of (annotationTiles m') t = None" by simp
        with None ne show False by simp
      next
        case (Some e)
        then have "t \<in> set (map fst (annotationTiles m))"
          using map_of_None_keys [of "annotationTiles m" t] by simp
        with n have none: "\<forall>i\<in>set ids. \<forall>a. annotations m i = Some a \<longrightarrow> tileFeatures a t = None"
          unfolding A by blast
        have "?P j" if "j \<in> set (fst e)" for j
        proof (rule ccontr)
          assume "\<not> ?P j"
          then obtain b where b: "j \<in> set ids" "annotations m j = Some b" by auto
          with none have "tileFeatures b t = None" by blast
          with link [OF b(2), of t] Some that show False by simp
        qed
        then have "filter ?P (fst e) = fst e" by (simp add: filter_id_conv)
        with B Some have 1: "map_option fst (map_of (annotationTiles m') t) = Some (fst e)" by simp
        from removeAnnotations_layers [OF assms(2) none] Some
        have 2: "map_option snd (map_of (annotationTiles m') t) = Some (snd e)" by simp
        from 1 2 have "map_of (annotationTiles m') t = Some e"
          by (cases "map_of (annotationTiles m') t") (auto simp: prod_eq_iff)
        with Some ne show False by simp
      qed
    qed
  qed
qed

theorem removeAnnotations_changed_tiles_scenario:
  "reachable scenario_added \<and>
   removeAnnotations [0] scenario_added =
     Some ([\<lparr>tile_z = 0, tile_x = 0, tile_y = 0\<rparr>, \<lparr>tile_z = 1, tile_x = 1, tile_y = 1\<rparr>,
            \<lparr>tile_z = 2, tile_x = 2, tile_y = 2\<rparr>], scenario_removed) \<and>
   map_of (annotationTiles scenario_removed) \<lparr>tile_z = 1, tile_x = 1, tile_y = 1\<rparr> \<noteq>
   map_of (annotationTiles scenario_added) \<lparr>tile_z = 1, tile_x = 1, tile_y = 1\<rparr>"
proof -
  have r: "reachable scenario_added"
    using reachable_add [OF reachable_setDefault [OF reachable_ctor] scenario_add] .
  from removeAnnotations_changed_tiles [OF r scenario_remove, of "\<lparr>tile_z = 1, tile_x = 1, tile_y = 1\<rparr>"]
  have "\<lparr>tile_z = 1, tile_x = 1, tile_y = 1\<rparr> \<in>
          set [\<lparr>tile_z = 0, tile_x = 0, tile_y = 0\<rparr>, \<lparr>tile_z = 1, tile_x = 1, tile_y = 1\<rparr>,
            \<lparr>tile_z = 2, tile_x = 2, tile_y = 2\<rparr>] \<longleftrightarrow>
        map_of (annotationTiles scenario_removed) \<lparr>tile_z = 1, tile_x = 1, tile_y = 1\<rparr> \<noteq>
        map_of (annotationTiles scenario_added) \<lparr>tile_z = 1, tile_x = 1, tile_y = 1\<rparr>"
    by blast
  then have "map_of (annotationTiles scenario_removed) \<lparr>tile_z = 1, tile_x = 1, tile_y = 1\<rparr> \<noteq>
        map_of (annotationTiles scenario_added) \<lparr>tile_z = 1, tile_x = 1, tile_y = 1\<rparr>"
    by simp
  with r scenario_remove show ?thesis by blast
qed

section \<open>The allocation of IDs\<close>

lemma removeAnnotations_nextID:
  assumes "removeAnnotations ids m = Some (affectedTiles, m')"
  shows "nextID_field m' = nextID_field m"
  by (rule removeAnnotations_invariant [where P = "\<lambda>m'. nextID_field m' = nextID_field m", OF _ assms])
     simp_all

lemma upt_add_split: "[0..<a + n] = [0..<a] @ map (\<lambda>k. a + k) [0..<n]"
  by (induction n) simp_all

lemma allocated_counter:
  "allocated h m \<Longrightarrow> h = map of_nat [0..<length h] \<and> nextID_field m = of_nat (length h)"
proof (induction rule: allocated.induct)
  case allocated_ctor
  show ?case by (simp add: AnnotationManager_ctor_def)
next
  case (allocated_setDefault h m symbol)
  then show ?case by (simp add: setDefaultPointAnnotationSymbol_def)
next
  case (allocated_add h m points symbols maxZoom tiles ids m')
  let ?n = "length points"
  note r = addPointAnnotations_result [OF allocated_add.hyps(2)]
  have d: "drop ?n ids = map (\<lambda>k. of_nat (length h + k)) [0..<?n]"
    unfolding r(2) using allocated_add.IH by simp
  have "h @ drop ?n ids = map of_nat [0..<length h] @ map (\<lambda>k. of_nat (length h + k)) [0..<?n]"
    unfolding d using allocated_add.IH by simp
  also have "\<dots> = map of_nat [0..<length h + ?n]"
    unfolding upt_add_split [of "length h" ?n] by (simp add: o_def)
  finally have 1: "h @ drop ?n ids = map of_nat [0..<length (h @ drop ?n ids)]"
    unfolding d by simp
  have 2: "nextID_field m' = of_nat (length (h @ drop ?n ids))"
    unfolding d r(3) using allocated_add.IH by simp
  from 1 2 show ?case by blast
next
  case (allocated_remove h m ids tiles m')
  then show ?case using removeAnnotations_nextID by metis
qed

lemma sorted_word_of_nat:
  assumes "n \<le> 2 ^ 32"
  shows "sorted_wrt (<) (map (of_nat :: nat \<Rightarrow> 32 word) [0..<n])"
proof -
  have "(of_nat i :: 32 word) < of_nat j" if "i < j" "j < n" for i j
  proof -
    from that assms have "i < 2 ^ 32" "j < 2 ^ 32" by simp_all
    then have "unat (of_nat i :: 32 word) = i" "unat (of_nat j :: 32 word) = j"
      by (simp_all add: unat_of_nat)
    with that(1) show ?thesis by (simp add: word_less_nat_alt)
  qed
  then show ?thesis
    by (simp add: sorted_wrt_iff_nth_less)
qed

text \<open>
  Claim C8, amended: as long as a manager has allocated at most \<open>2 ^ 32\<close> IDs, the IDs
  are allocated in strictly increasing order, so that every newly allocated ID is
  greater than, and distinct from, every ID allocated before.  The IDs are
  \<open>0, 1, 2, \<dots>\<close> and the counter holds their number.
\<close>

theorem allocated_increasing:
  assumes "allocated h m" and "length h \<le> 2 ^ 32"
  shows "sorted_wrt (<) h \<and> distinct h \<and> h = map of_nat [0..<length h] \<and>
         nextID_field m = of_nat (length h)"
proof -
  note c = allocated_counter [OF assms(1)]
  have s: "sorted_wrt (<) h"
    using sorted_word_of_nat [OF assms(2)] c by simp
  then have "distinct h"
    by (simp add: strict_sorted_iff)
  with s c show ?thesis by blast
qed

lemmas add_eval_defs =
  addPointAnnotations_def addPoint_def nextID_def Annotation_ctor_def getPoint_geometry_def
  projectPoint_origin double_to_uint32_def double_to_int_def map_emplace_def
  fanOut.simps addFeature_def tileOf_def makeFeature_def extent_def tile_less_def Let_def

lemma first_add:
  "addPointAnnotations [origin] [[]] 0 AnnotationManager_ctor =
   Some (([\<lparr>tile_z = 0, tile_x = 0, tile_y = 0\<rparr>], [0, 0]), cycling 0)"
  by (simp add: add_eval_defs AnnotationManager_ctor_def cycling_def)

lemma cycled_add:
  "addPointAnnotations [origin] [[]] 0 (cycled n) =
   Some (([\<lparr>tile_z = 0, tile_x = 0, tile_y = 0\<rparr>], [0, of_nat n]), cycling n)"
  by (simp add: add_eval_defs cycled_def cycling_def)

lemma cycling_remove:
  "removeAnnotations [of_nat n] (cycling n) =
   Some ([\<lparr>tile_z = 0, tile_x = 0, tile_y = 0\<rparr>], cycled (Suc n))"
  by (simp add: cycling_def cycled_def erase_if_def)

lemma allocated_cycling: "allocated (map of_nat [0..<Suc n]) (cycling n)"
proof (induction n)
  case 0
  from allocated_add [OF allocated_ctor first_add] show ?case by simp
next
  case (Suc n)
  from allocated_add [OF allocated_remove [OF Suc cycling_remove] cycled_add]
  show ?case by simp
qed

lemma allocated_cycled: "allocated (map of_nat [0..<Suc n]) (cycled (Suc n))"
  by (rule allocated_remove [OF allocated_cycling cycling_remove])

text \<open>
  Claim C8 says that a newly allocated ID is always greater than every ID allocated
  before.  The counter is a \<open>uint32_t\<close>: a manager reaches the state \<open>cycled 4294967295\<close>
  having allocated the IDs from 0 to 4294967294, and a call that adds two points there
  allocates 4294967295 and then 0, which is not greater and was allocated before.
\<close>

theorem allocated_wraps:
  "allocated (map of_nat [0..<4294967295]) (cycled 4294967295) \<and>
   map_option (\<lambda>r. drop 2 (snd (fst r)))
     (addPointAnnotations [origin, origin] [[], []] 0 (cycled 4294967295)) =
     Some [4294967295, 0] \<and>
   (0 :: 32 word) \<in> set (map of_nat [0..<4294967295]) \<and>
   \<not> (4294967295 :: 32 word) < 0"
proof -
  have n: "(4294967295 :: nat) = Suc 4294967294" by simp
  have 1: "allocated (map of_nat [0..<4294967295]) (cycled 4294967295)"
    unfolding n by (rule allocated_cycled)
  have 2: "map_option (\<lambda>r. drop 2 (snd (fst r)))
     (addPointAnnotations [origin, origin] [[], []] 0 (cycled 4294967295)) =
     Some [4294967295, 0]"
    by (simp add: add_eval_defs cycled_def)
  have "(of_nat 0 :: 32 word) \<in> of_nat ` {0..<4294967295}"
    by (rule imageI) simp
  then have 3: "(0 :: 32 word) \<in> set (map of_nat [0..<4294967295])"
    by simp
  from 1 2 3 show ?thesis by simp
qed

theorem allocated_increasing_pair:
  "allocated [0, 1] pair_added \<and> sorted_wrt (<) [0, 1 :: 32 word] \<and>
   nextID_field pair_added = 2"
proof -
  from allocated_add [OF allocated_ctor pair_add] have a: "allocated [0, 1] pair_added"
    by simp
  from allocated_increasing [OF a] show ?thesis using a by simp
qed

section \<open>Each ID at most once per zoom level\<close>

lemma zoomIDs_Cons:
  "zoomIDs c (tile # tiles) = (if tile_z (fst tile) = c then fst (snd tile) else []) @ zoomIDs c tiles"
  by (simp add: zoomIDs_def)

lemma zoomIDs_Nil: "zoomIDs c [] = []"
  by (simp add: zoomIDs_def)

lemma matchTiles_zoomIDs:
  "mset (matchTiles z nwTile seTile queryBounds annos tiles) \<subseteq># mset (zoomIDs (uint z) tiles)"
proof (induction tiles)
  case Nil
  show ?case by (simp add: zoomIDs_Nil)
next
  case (Cons tile tiles)
  have "mset (filter (boundsAccepted annos queryBounds) (fst (snd tile))) \<subseteq># mset (fst (snd tile))"
    by simp
  then show ?case
    using Cons by (auto simp: zoomIDs_Cons Let_def intro: subset_mset.add_mono subset_mset.add_increasing)
qed

lemma zoomIDs_tiles_modify:
  "mset (zoomIDs c (tiles_modify t (\<lambda>e. (fst e @ [i], snd e @ [f])) tiles)) =
   mset (zoomIDs c tiles) + (if t \<in> set (map fst tiles) \<and> tile_z t = c then {#i#} else {#})"
  by (induction tiles) (fastforce simp: zoomIDs_Cons zoomIDs_Nil)+

lemma zoomIDs_tiles_emplace:
  "t \<notin> set (map fst tiles) \<Longrightarrow>
   mset (zoomIDs c (tiles_emplace t ([i], [f]) tiles)) =
   mset (zoomIDs c tiles) + (if tile_z t = c then {#i#} else {#})"
  by (induction t "([i], [f]) :: TileEntry" tiles rule: tiles_emplace.induct)
     (auto simp: zoomIDs_Cons zoomIDs_Nil)

lemma zoomIDs_addFeature:
  "mset (zoomIDs c (annotationTiles (snd (addFeature i p s z z2 x y st)))) =
   mset (zoomIDs c (annotationTiles (snd st))) + (if sint z = c then {#i#} else {#})"
proof (cases "map_of (annotationTiles (snd st)) (tileOf z x y)")
  case None
  then have "tileOf z x y \<notin> set (map fst (annotationTiles (snd st)))"
    by (simp add: map_of_None_keys)
  from zoomIDs_tiles_emplace [OF this] None show ?thesis
    by (simp add: addFeature_def Let_def) (simp add: tileOf_def)
next
  case (Some e)
  then have "tileOf z x y \<in> set (map fst (annotationTiles (snd st)))"
    using map_of_None_keys [of "annotationTiles (snd st)" "tileOf z x y"] by simp
  with Some show ?thesis
    by (simp add: addFeature_def Let_def zoomIDs_tiles_modify del: set_map) (simp add: tileOf_def)
qed

lemma fanOut_invariant_zoom:
  assumes step: "\<And>z z2 x y st. 0 \<le> sint z \<Longrightarrow> Q (sint z) st \<Longrightarrow>
                   Q (sint z - 1) (addFeature i p s z z2 x y st)"
  shows "Q (sint z) st \<Longrightarrow> \<exists>c. Q c (fanOut i p s z z2 x y st)"
  using step
proof (induction i p s z z2 x y st rule: fanOut.induct)
  case (1 annotationID p symbol z z2 x y st)
  show ?case
  proof (cases "0 \<le> sint z")
    case True
    have "Q (sint (z - 1)) (addFeature annotationID p symbol z z2 x y st)"
      using "1.prems"(2) [OF True "1.prems"(1)] by (simp add: sint_dec_int8 [OF True])
    from "1.IH" [OF True this "1.prems"(2)] show ?thesis
      using True by (subst fanOut.simps) simp
  next
    case False
    then show ?thesis using "1.prems"(1) by (subst fanOut.simps) auto
  qed
qed

lemma fanOut_packed:
  assumes p: "packed n (annotationTiles (snd st))" and i: "unat i = n"
  shows "packed (Suc n) (annotationTiles (snd (fanOut i p s z z2 x y st)))"
proof -
  define Q :: "int \<Rightarrow> TileID list \<times> AnnotationManager \<Rightarrow> bool" where "Q = (\<lambda>c st. \<forall>c' j. count (mset (zoomIDs c' (annotationTiles (snd st)))) j \<le>
                    (if unat j < n \<or> (j = i \<and> c < c') then 1 else (0::nat)))"
  have start: "Q (sint z) st"
    unfolding Q_def
  proof (intro allI)
    fix c' j
    have "count (mset (zoomIDs c' (annotationTiles (snd st)))) j \<le> (if unat j < n then 1 else 0)"
      using p unfolding packed_def by blast
    also have "\<dots> \<le> (if unat j < n \<or> (j = i \<and> sint z < c') then 1 else 0)"
      by simp
    finally show "count (mset (zoomIDs c' (annotationTiles (snd st)))) j \<le>
                 (if unat j < n \<or> (j = i \<and> sint z < c') then 1 else 0)" .
  qed
  have step: "Q (sint z - 1) (addFeature i p s z z2 x y st)" if "0 \<le> sint z" "Q (sint z) st"
    for z z2 x y st
    unfolding Q_def
  proof (intro allI)
    fix c' j
    have old: "count (mset (zoomIDs c' (annotationTiles (snd st)))) j \<le>
                 (if unat j < n \<or> (j = i \<and> sint z < c') then 1 else 0)"
      using that(2) unfolding Q_def by blast
    have "count (mset (zoomIDs c' (annotationTiles (snd st)))) j + (if sint z = c' \<and> j = i then 1 else 0) \<le>
                 (if unat j < n \<or> (j = i \<and> sint z - 1 < c') then 1 else 0)"
    proof (cases "sint z = c' \<and> j = i")
      case True
      with old i have "count (mset (zoomIDs c' (annotationTiles (snd st)))) j = 0" by simp
      with True show ?thesis by simp
    next
      case False
      have le: "(if unat j < n \<or> (j = i \<and> sint z < c') then 1 else 0) \<le>
            (if unat j < n \<or> (j = i \<and> sint z - 1 < c') then 1 else (0::nat))"
        by auto
      have z: "(if sint z = c' \<and> j = i then 1 else 0) = (0::nat)"
        using False by simp
      show ?thesis
        unfolding z using order_trans [OF old le] by (simp only: add_0_right)
    qed
    moreover have "count (mset (zoomIDs c' (annotationTiles (snd (addFeature i p s z z2 x y st))))) j =
        count (mset (zoomIDs c' (annotationTiles (snd st)))) j + (if sint z = c' \<and> j = i then 1 else 0)"
      unfolding zoomIDs_addFeature by simp
    ultimately show "count (mset (zoomIDs c' (annotationTiles (snd (addFeature i p s z z2 x y st))))) j \<le>
                 (if unat j < n \<or> (j = i \<and> sint z - 1 < c') then 1 else 0)"
      by (simp only:)
  qed
  from fanOut_invariant_zoom [of Q i p s, OF step start] obtain c where
    c: "Q c (fanOut i p s z z2 x y st)" by blast
  show ?thesis
    unfolding packed_def
  proof (intro allI)
    fix c' j
    have "count (mset (zoomIDs c' (annotationTiles (snd (fanOut i p s z z2 x y st))))) j \<le>
            (if unat j < n \<or> (j = i \<and> c < c') then 1 else 0)"
      using c unfolding Q_def by blast
    also have "\<dots> \<le> (if unat j < Suc n then 1 else 0)"
      using i by auto
    finally show "count (mset (zoomIDs c' (annotationTiles (snd (fanOut i p s z z2 x y st))))) j \<le>
            (if unat j < Suc n then 1 else 0)" .
  qed
qed

lemma addPoint_packed:
  assumes a: "addPoint point symbol maxZoom st = Some st'"
    and p: "packed n (annotationTiles (snd (snd st)))"
    and c: "nextID_field (snd (snd st)) = of_nat n" and n: "n < 2 ^ 32"
  shows "packed (Suc n) (annotationTiles (snd (snd st')))"
proof -
  have u: "unat (nextID_field (snd (snd st))) = n"
    unfolding c using n by (simp add: unat_of_nat)
  have t: "annotationTiles (emplaced point (snd (snd st))) = annotationTiles (snd (snd st))"
    by (simp add: emplaced_def)
  show ?thesis
    by (subst addPoint_Some [OF a]) (simp add: fanOut_packed [OF _ u] t p)
qed

lemma addPoints_packed:
  "addPoints points symbols maxZoom st = Some st' \<Longrightarrow>
   packed n (annotationTiles (snd (snd st))) \<Longrightarrow> nextID_field (snd (snd st)) = of_nat n \<Longrightarrow>
   n + length points \<le> 2 ^ 32 \<Longrightarrow>
   packed (n + length points) (annotationTiles (snd (snd st')))"
proof (induction points arbitrary: symbols st n)
  case Nil
  then show ?case by simp
next
  case (Cons point points)
  from Cons.prems(1) obtain st1 where
    a: "addPoint point (case symbols of [] \<Rightarrow> None | s # _ \<Rightarrow> Some s) maxZoom st = Some st1" and
    b: "addPoints points (tl symbols) maxZoom st1 = Some st'"
    by (auto split: option.splits)
  from Cons.prems(4) have n: "n < 2 ^ 32" "Suc n + length points \<le> 2 ^ 32" by simp_all
  have 1: "packed (Suc n) (annotationTiles (snd (snd st1)))"
    by (rule addPoint_packed [OF a Cons.prems(2,3) n(1)])
  have 2: "nextID_field (snd (snd st1)) = of_nat (Suc n)"
    using addPoint_result(3) [OF a] Cons.prems(3) by simp
  from Cons.IH [OF b 1 2 n(2)] show ?case by simp
qed

lemma populated_counter: "populated n m \<Longrightarrow> nextID_field m = of_nat n"
proof (induction rule: populated.induct)
  case populated_ctor
  show ?case by (simp add: AnnotationManager_ctor_def)
next
  case (populated_setDefault n m symbol)
  then show ?case by (simp add: setDefaultPointAnnotationSymbol_def)
next
  case (populated_add n m points symbols maxZoom r m')
  then show ?case
    using addPointAnnotations_result(3) [of points symbols maxZoom m "fst r" "snd r" m'] by simp
qed

lemma populated_packed: "populated n m \<Longrightarrow> n \<le> 2 ^ 32 \<Longrightarrow> packed n (annotationTiles m)"
proof (induction rule: populated.induct)
  case populated_ctor
  show ?case by (simp add: AnnotationManager_ctor_def packed_def zoomIDs_Nil)
next
  case (populated_setDefault n m symbol)
  then show ?case by (simp add: setDefaultPointAnnotationSymbol_def)
next
  case (populated_add n m points symbols maxZoom r m')
  from populated_add.hyps(2) obtain st' where
    a: "addPoints points symbols maxZoom ([], replicate (length points) 0, m) = Some st'" and
    b: "m' = snd (snd st')"
    by (auto simp: addPointAnnotations_def split: option.splits)
  from populated_add.prems have "n \<le> 2 ^ 32" by simp
  from addPoints_packed [OF a, of n] populated_add.IH [OF this]
    populated_counter [OF populated_add.hyps(1)] populated_add.prems
  show ?case unfolding b by simp
qed

text \<open>
  Claim C10, amended: if the index has been populated only through
  \<open>addPointAnnotations\<close> and at most \<open>2 ^ 32\<close> IDs have been allocated, then
  \<open>getAnnotationsInBounds\<close> returns each ID at most once.
\<close>

theorem getAnnotationsInBounds_distinct:
  assumes "populated n m" and "n \<le> 2 ^ 32"
  shows "distinct (getAnnotationsInBounds queryBounds maxZoom m)"
proof -
  let ?r = "getAnnotationsInBounds queryBounds maxZoom m"
  have "count (mset ?r) j \<le> 1" for j
  proof -
    have "count (mset ?r) j \<le> count (mset (zoomIDs (uint maxZoom) (annotationTiles m))) j"
      unfolding getAnnotationsInBounds_def by (rule mset_subset_eq_count [OF matchTiles_zoomIDs])
    also have "\<dots> \<le> (if unat j < n then 1 else 0)"
      using populated_packed [OF assms] unfolding packed_def by blast
    also have "\<dots> \<le> 1" by simp
    finally show ?thesis .
  qed
  then show ?thesis
    unfolding distinct_count_atmost_1 by (metis count_mset_0_iff le_antisym not_less_eq_eq le0 One_nat_def)
qed

section \<open>More than \<open>2 ^ 32\<close> annotations\<close>

lemma word_eq_of_nat_iff: "n < 2 ^ 32 \<Longrightarrow> (i = (of_nat n :: 32 word)) \<longleftrightarrow> unat i = n"
  by (auto simp: unat_of_nat)

lemma crowded_annotations:
  assumes "n < 2 ^ 32"
  shows "(\<lambda>i. if unat i < n then Some (originAnnotation (unat i)) else None)
           (of_nat n \<mapsto> originAnnotation n) =
         (\<lambda>i :: 32 word. if unat i < Suc n then Some (originAnnotation (unat i)) else None)"
proof (rule ext)
  fix i :: "32 word"
  show "((\<lambda>i. if unat i < n then Some (originAnnotation (unat i)) else None)
           (of_nat n \<mapsto> originAnnotation n)) i =
        (if unat i < Suc n then Some (originAnnotation (unat i)) else None)"
    using word_eq_of_nat_iff [OF assms, of i] by (auto simp: less_Suc_eq)
qed

lemma crowded_first:
  "addPointAnnotations [origin] [[]] 0 AnnotationManager_ctor =
   Some (([\<lparr>tile_z = 0, tile_x = 0, tile_y = 0\<rparr>], [0, 0]), crowded 1)"
proof -
  have "[0 \<mapsto> originAnnotation 0] =
        (\<lambda>i :: 32 word. if unat i < Suc 0 then Some (originAnnotation (unat i)) else None)"
    by (rule ext) (auto simp: unat_eq_0)
  then show ?thesis
    by (simp add: add_eval_defs AnnotationManager_ctor_def crowded_def originAnnotation_def
        originFeature_def)
qed

lemma crowded_step:
  assumes "1 \<le> n" "n < 2 ^ 32"
  shows "addPointAnnotations [origin] [[]] 0 (crowded n) =
   Some (([\<lparr>tile_z = 0, tile_x = 0, tile_y = 0\<rparr>], [0, of_nat n]), crowded (Suc n))"
  using assms crowded_annotations [of n]
  by (simp add: add_eval_defs crowded_def unat_of_nat originFeature_def originAnnotation_def)

lemma populated_crowded: "n < 2 ^ 32 \<Longrightarrow> populated (Suc n) (crowded (Suc n))"
proof (induction n)
  case 0
  from populated_add [OF populated_ctor crowded_first] show ?case by simp
next
  case (Suc n)
  then have "populated (Suc n) (crowded (Suc n))" by simp
  from populated_add [OF this crowded_step [of "Suc n"]] Suc.prems show ?case by simp
qed

lemma crowded_full:
  "crowded 4294967296 =
     \<lparr>defaultPointAnnotationSymbol = [], nextID_field = 0,
      annotations = (\<lambda>i. Some (originAnnotation (unat i))),
      annotationTiles =
        [(\<lparr>tile_z = 0, tile_x = 0, tile_y = 0\<rparr>, map of_nat [0..<4294967296],
          map originFeature [0..<4294967296])],
      nextFeature = 4294967296\<rparr>"
proof -
  have "unat i < 4294967296" for i :: "32 word"
    using unsigned_less [of i, where ?'a = nat] by simp
  moreover have "(of_nat 4294967296 :: 32 word) = 0"
    by simp
  ultimately show ?thesis
    unfolding crowded_def by simp
qed

lemma overfull_add:
  "addPointAnnotations [origin] [[]] 0 (crowded 4294967296) =
   Some (([\<lparr>tile_z = 0, tile_x = 0, tile_y = 0\<rparr>], [0, 0]), overfull)"
  unfolding crowded_full
  by (simp add: add_eval_defs overfull_def originAnnotation_def originFeature_def)
     (auto simp: fun_eq_iff)

lemma overfull_populated: "populated 4294967297 overfull"
proof -
  have "populated (Suc 4294967295) (crowded (Suc 4294967295))"
    by (rule populated_crowded) simp
  then have "populated 4294967296 (crowded 4294967296)" by simp
  from populated_add [OF this overfull_add] show ?thesis by simp
qed

lemma overfull_query:
  "getAnnotationsInBounds origin_box 0 overfull = map of_nat [0..<4294967296] @ [0]"
proof -
  have ba: "boundsAccepted (annotations overfull) origin_box i" for i
    by (simp add: boundsAccepted_def overfull_def originAnnotation_def getBounds_def
        boundsWithin_def origin_box_def)
  then have f: "filter (boundsAccepted (annotations overfull) origin_box) l = l" for l
    by simp
  have t: "annotationTiles overfull =
        [(\<lparr>tile_z = 0, tile_x = 0, tile_y = 0\<rparr>, map of_nat [0..<4294967296] @ [0],
          map originFeature [0..<4294967296] @ [originFeature 4294967296])]"
    by (simp add: overfull_def)
  have nw: "nwTile_of origin_box 0 = \<lparr>tile_z = 0, tile_x = 0, tile_y = 0\<rparr>"
    by (simp add: nwTile_of_def origin_box_def projectPoint_origin double_to_int_def)
  have se: "seTile_of origin_box 0 = \<lparr>tile_z = 0, tile_x = 0, tile_y = 0\<rparr>"
    by (simp add: seTile_of_def origin_box_def projectPoint_origin double_to_int_def)
  show ?thesis
    unfolding getAnnotationsInBounds_def t nw se
    by (simp add: tileInRange_def tileInterior_def f ba)
qed

text \<open>
  Claim C10 says that \<open>getAnnotationsInBounds\<close> returns each ID at most once when the
  index has been populated only through \<open>addPointAnnotations\<close>.  The state \<open>overfull\<close>
  is reached by \<open>2 ^ 32 + 1\<close> calls that each add one point at \<open>(0, 0)\<close> with maximum
  zoom 0; the last call allocates the ID 0 a second time, and the query for the point
  \<open>(0, 0)\<close> at zoom 0 returns the ID 0 twice.
\<close>

theorem getAnnotationsInBounds_repeats_id:
  "populated 4294967297 overfull \<and>
   getAnnotationsInBounds origin_box 0 overfull = map of_nat [0..<4294967296] @ [0] \<and>
   \<not> distinct (getAnnotationsInBounds origin_box 0 overfull)"
proof -
  have "(of_nat 0 :: 32 word) \<in> of_nat ` {0..<4294967296}"
    by (rule imageI) simp
  then have "(0 :: 32 word) \<in> set (map of_nat [0..<4294967296])"
    by simp
  then have "\<not> distinct (map of_nat [0..<4294967296] @ [0 :: 32 word])"
    by simp
  then show ?thesis
    using overfull_populated overfull_query by simp
qed

theorem getAnnotationsInBounds_distinct_scenario:
  "populated 1 scenario_added \<and> (1 :: nat) \<le> 2 ^ 32 \<and>
   distinct (getAnnotationsInBounds scenario_box 2 scenario_added) \<and>
   getAnnotationsInBounds scenario_box 2 scenario_added = [0]"
proof -
  have p: "populated 1 scenario_added"
    using populated_add [OF populated_setDefault [OF populated_ctor] scenario_add] by simp
  from getAnnotationsInBounds_distinct [OF p, of scenario_box 2]
  show ?thesis using p scenario_query by simp
qed

end
